theory Spec2Isabelle
  imports Main "HOL-Library.Signed_Division" "HOL-Library.Monad_Syntax"
begin

unbundle bit_operations_syntax

section \<open>Eytzinger layout and its lower-bound searches (src/cpp/eytzinger.hpp)\<close>

text \<open>
  The header defines a class \<open>Eytzinger\<close> holding a vector \<open>t\<close> and two integers \<open>n\<close> and
  \<open>iters\<close>, a private recursive builder \<open>eytzinger\<close>, four public lower-bound searches, the
  accessor \<open>get_value\<close>, and two free functions \<open>naive_binary_search\<close> and
  \<open>std_lower_bound\<close>.

  Conventions of the embedding:
  \<^item> Values of the C++ types \<open>int\<close> (32 bits), \<open>long\<close> (64 bits) and \<open>size_t\<close> (64 bits,
    unsigned) are HOL integers in the range of their type. Signed overflow is undefined
    behaviour: every signed addition and multiplication of the code is followed by the
    check \<open>as_int\<close> or \<open>as_long\<close> of the type it is computed in. A conversion to a
    narrower type keeps the low bits (\<open>to_int\<close>, \<open>size_t_of_int\<close>).
  \<^item> A read or write of a vector outside its bounds is undefined behaviour as well, and
    so is a shift by the width of the shifted type or more.
  \<^item> Undefined behaviour is the value \<open>None\<close>, and a function that does not return is
    \<open>None\<close> too. A theorem that a function returns \<open>Some r\<close> therefore says that it
    terminates, that every vector access it made was within bounds and that no arithmetic
    it did overflowed.
\<close>

subsection \<open>Machine integers\<close>

definition as_int :: "int \<Rightarrow> int option" where
  "as_int v = (if - (2 ^ 31) \<le> v \<and> v < 2 ^ 31 then Some v else None)"

definition as_long :: "int \<Rightarrow> int option" where
  "as_long v = (if - (2 ^ 63) \<le> v \<and> v < 2 ^ 63 then Some v else None)"

text \<open>The conversion of a \<open>long\<close> or a \<open>size_t\<close> to \<open>int\<close>.\<close>

definition to_int :: "int \<Rightarrow> int" where
  "to_int v = signed_take_bit 31 v"

subsection \<open>Vector access\<close>

text \<open>
  \<open>v[i]\<close> as a read, and as the target of an assignment. A negative subscript converts to
  a \<open>size_t\<close> beyond every size.
\<close>

definition vget :: "int list \<Rightarrow> int \<Rightarrow> int option" where
  "vget v i = (if 0 \<le> i \<and> i < int (length v) then Some (v ! nat i) else None)"

definition vset :: "int list \<Rightarrow> int \<Rightarrow> int \<Rightarrow> int list option" where
  "vset v i a = (if 0 \<le> i \<and> i < int (length v) then Some (v[nat i := a]) else None)"

subsection \<open>Compiler builtins and \<open>lg\<close>\<close>

text \<open>
  \<open>__builtin_clz\<close> counts the zero bits above the highest set bit of a 32-bit operand:
  \<open>clz_from 32\<close> scans the bits 31 down to 0. (The builtin is undefined at 0; \<open>lg\<close>
  never calls it there.)
\<close>

fun clz_from :: "nat \<Rightarrow> int \<Rightarrow> nat" where
  "clz_from 0 v = 0"
| "clz_from (Suc i) v = (if bit v i then 0 else Suc (clz_from i v))"

definition builtin_clz :: "int \<Rightarrow> int" where
  "builtin_clz v = int (clz_from 32 v)"

text \<open>
  \<open>__builtin_ffs\<close> takes an \<open>int\<close> and returns one plus the index of its least
  significant set bit, and 0 at 0. Every call below passes an \<open>int\<close>: the searches that
  keep \<open>k\<close> in a \<open>long\<close> convert \<open>~k\<close> with \<open>to_int\<close> first.
\<close>

function builtin_ffs :: "int \<Rightarrow> int" where
  "builtin_ffs v = (if v = 0 then 0 else if odd v then 1 else 1 + builtin_ffs (v div 2))"
  by pat_completeness auto
termination
  by (relation "measure (\<lambda>v. nat \<bar>v\<bar>)") auto

definition lg :: "int \<Rightarrow> int" where
  "lg m = (if m = 0 then - 1 else 31 - builtin_clz m)"

subsection \<open>The class and its construction\<close>

record Eytzinger =
  t :: "int list"
  n :: int
  iters :: int

text \<open>
  The private method \<open>eytzinger(arr, i, k)\<close> writes the member \<open>t\<close> and returns the
  cursor \<open>i\<close>; here it takes the vector and returns it with the cursor. The member \<open>n\<close>
  is the first argument. All its integers are \<open>int\<close>. The recursion is on the index \<open>k\<close>
  alone and would not end from \<open>k \<le> 0\<close>, so it is a partial function; the constructor
  starts it at \<open>k = 1\<close>.
\<close>

partial_function (option) eytzinger ::
  "int \<Rightarrow> int list \<Rightarrow> int list \<Rightarrow> int \<Rightarrow> int \<Rightarrow> (int list \<times> int) option" where
  "eytzinger nv arr tv i k =
     (if k \<le> nv then
        do {
          kl \<leftarrow> as_int (2 * k);
          (t1, i1) \<leftarrow> eytzinger nv arr tv i kl;
          a \<leftarrow> vget arr i1;
          t2 \<leftarrow> vset t1 k a;
          i2 \<leftarrow> as_int (i1 + 1);
          kr \<leftarrow> as_int (2 * k + 1);
          eytzinger nv arr t2 i2 kr
        }
      else Some (tv, i))"

declare eytzinger.simps [code]

text \<open>
  The constructor: \<open>n\<close> is the size of the input converted to \<open>int\<close>; \<open>t.resize(n + 1)\<close>
  fills the new vector with zeros (a negative \<open>n + 1\<close> converts to a size that no vector
  can have, and \<open>resize\<close> throws); \<open>t[0] = -1\<close>; then the builder runs and
  \<open>iters = lg(n + 1)\<close>.
\<close>

definition new_Eytzinger :: "int list \<Rightarrow> Eytzinger option" where
  "new_Eytzinger sorted_array =
     (let nv = to_int (int (length sorted_array))
      in do {
        n1 \<leftarrow> as_int (nv + 1);
        t0 \<leftarrow> (if 0 \<le> n1 then Some (replicate (nat n1) 0) else None);
        t1 \<leftarrow> vset t0 0 (- 1);
        (t2, i) \<leftarrow> eytzinger nv sorted_array t1 0 1;
        Some \<lparr>t = t2, n = nv, iters = lg n1\<rparr>
      })"

subsection \<open>The four searches\<close>

text \<open>
  The statement \<open>k = 2 * k + (t[k] < x)\<close>, computed in \<open>int\<close> where \<open>k\<close> is an \<open>int\<close>
  (\<open>lower_bound_original\<close>, \<open>lower_bound_fixed_iter_prefetch\<close>) and in \<open>long\<close> where \<open>k\<close> is
  a \<open>long\<close> (\<open>lower_bound_fixed_iter\<close>, \<open>lower_bound_prefetch\<close>).
\<close>

definition descend_int :: "int list \<Rightarrow> int \<Rightarrow> int \<Rightarrow> int option" where
  "descend_int tv x k = do { a \<leftarrow> vget tv k; as_int (2 * k + (if a < x then 1 else 0)) }"

definition descend_long :: "int list \<Rightarrow> int \<Rightarrow> int \<Rightarrow> int option" where
  "descend_long tv x k = do { a \<leftarrow> vget tv k; as_long (2 * k + (if a < x then 1 else 0)) }"

text \<open>
  The statement \<open>k >>= __builtin_ffs(~k)\<close>. On an \<open>int\<close> the shift count must be below
  32; on a \<open>long\<close>, \<open>~k\<close> is converted to the \<open>int\<close> parameter of the builtin and the
  count must be below 64.
\<close>

definition restore_index_int :: "int \<Rightarrow> int option" where
  "restore_index_int k =
     (let c = builtin_ffs (NOT k)
      in if 0 \<le> c \<and> c < 32 then Some (drop_bit (nat c) k) else None)"

definition restore_index_long :: "int \<Rightarrow> int option" where
  "restore_index_long k =
     (let c = builtin_ffs (to_int (NOT k))
      in if 0 \<le> c \<and> c < 64 then Some (drop_bit (nat c) k) else None)"

text \<open>
  \<open>lower_bound_original\<close>: \<open>int k\<close>; the loop \<open>while (k <= n)\<close>, entered with \<open>k = 1\<close>.
\<close>

partial_function (option) while_original :: "Eytzinger \<Rightarrow> int \<Rightarrow> int \<Rightarrow> int option" where
  "while_original e x k =
     (if k \<le> n e then do { k' \<leftarrow> descend_int (t e) x k; while_original e x k' } else Some k)"

declare while_original.simps [code]

definition lower_bound_original :: "Eytzinger \<Rightarrow> int \<Rightarrow> int option" where
  "lower_bound_original e x = do { k \<leftarrow> while_original e x 1; restore_index_int k }"

text \<open>
  \<open>lower_bound_fixed_iter\<close>: \<open>long k\<close>; the loop \<open>for (i = 0; i < iters; i++)\<close>, then the
  final comparison, which reads \<open>t[k]\<close> when \<open>k <= n\<close> and \<open>t[0]\<close> otherwise; the result is
  converted to the return type \<open>int\<close>.
\<close>

function for_fixed :: "Eytzinger \<Rightarrow> int \<Rightarrow> int \<Rightarrow> int \<Rightarrow> int option" where
  "for_fixed e x i k =
     (if i < iters e then
        (case descend_long (t e) x k of
           None \<Rightarrow> None
         | Some k' \<Rightarrow> for_fixed e x (i + 1) k')
      else Some k)"
  by pat_completeness auto
termination
  by (relation "measure (\<lambda>(e, x, i, k). nat (iters e - i))") auto

definition final_step :: "Eytzinger \<Rightarrow> int \<Rightarrow> int \<Rightarrow> int option" where
  "final_step e x k =
     do {
       a \<leftarrow> (if k \<le> n e then vget (t e) k else vget (t e) 0);
       as_long (2 * k + (if a < x then 1 else 0))
     }"

definition lower_bound_fixed_iter :: "Eytzinger \<Rightarrow> int \<Rightarrow> int option" where
  "lower_bound_fixed_iter e x =
     do {
       k \<leftarrow> for_fixed e x 0 1;
       k' \<leftarrow> final_step e x k;
       r \<leftarrow> restore_index_long k';
       Some (to_int r)
     }"

text \<open>
  \<open>__builtin_prefetch\<close> takes an address and returns nothing. The two prefetching searches
  compute its argument \<open>min(k * 16L, (long)t.size() - 1)\<close> in \<open>long\<close> in every iteration.
  \<open>lower_bound_prefetch\<close> keeps \<open>k\<close> in a \<open>long\<close>.
\<close>

definition builtin_prefetch :: "int \<Rightarrow> unit" where
  "builtin_prefetch addr = ()"

partial_function (option) while_prefetch :: "Eytzinger \<Rightarrow> int \<Rightarrow> int \<Rightarrow> int option" where
  "while_prefetch e x k =
     (if k \<le> n e then
        do {
          a16 \<leftarrow> as_long (k * 16);
          let u = builtin_prefetch (min a16 (int (length (t e)) - 1));
          k' \<leftarrow> descend_long (t e) x k;
          while_prefetch e x k'
        }
      else Some k)"

declare while_prefetch.simps [code]

definition lower_bound_prefetch :: "Eytzinger \<Rightarrow> int \<Rightarrow> int option" where
  "lower_bound_prefetch e x =
     do {
       k \<leftarrow> while_prefetch e x 1;
       r \<leftarrow> restore_index_long k;
       Some (to_int r)
     }"

text \<open>\<open>lower_bound_fixed_iter_prefetch\<close> keeps \<open>k\<close> in an \<open>int\<close>.\<close>

function for_fixed_prefetch :: "Eytzinger \<Rightarrow> int \<Rightarrow> int \<Rightarrow> int \<Rightarrow> int option" where
  "for_fixed_prefetch e x i k =
     (if i < iters e then
        (case as_long (k * 16) of
           None \<Rightarrow> None
         | Some a16 \<Rightarrow>
             (let u = builtin_prefetch (min a16 (int (length (t e)) - 1))
              in case descend_int (t e) x k of
                   None \<Rightarrow> None
                 | Some k' \<Rightarrow> for_fixed_prefetch e x (i + 1) k'))
      else Some k)"
  by pat_completeness auto
termination
  by (relation "measure (\<lambda>(e, x, i, k). nat (iters e - i))") auto

definition final_step_int :: "Eytzinger \<Rightarrow> int \<Rightarrow> int \<Rightarrow> int option" where
  "final_step_int e x k =
     do {
       a \<leftarrow> (if k \<le> n e then vget (t e) k else vget (t e) 0);
       as_int (2 * k + (if a < x then 1 else 0))
     }"

definition lower_bound_fixed_iter_prefetch :: "Eytzinger \<Rightarrow> int \<Rightarrow> int option" where
  "lower_bound_fixed_iter_prefetch e x =
     do {
       k \<leftarrow> for_fixed_prefetch e x 0 1;
       k' \<leftarrow> final_step_int e x k;
       restore_index_int k'
     }"

subsection \<open>The accessor\<close>

text \<open>
  In \<open>index < t.size()\<close> the \<open>int\<close> is converted to the unsigned 64-bit \<open>size_t\<close>, and
  so is the subscript of \<open>t[index]\<close>.
\<close>

definition size_t_of_int :: "int \<Rightarrow> int" where
  "size_t_of_int i = i mod 2 ^ 64"

definition get_value :: "Eytzinger \<Rightarrow> int \<Rightarrow> int" where
  "get_value e index =
     (if size_t_of_int index < int (length (t e)) then t e ! nat (size_t_of_int index) else - 1)"

subsection \<open>The reference searches\<close>

text \<open>
  \<open>naive_binary_search\<close>: \<open>low\<close>, \<open>high\<close> and \<open>mid\<close> are \<open>int\<close>; the loop
  \<open>while (high - low > 1)\<close>; the division of C++ truncates, which is \<open>sdiv\<close>.
\<close>

function naive_loop :: "int list \<Rightarrow> int \<Rightarrow> int \<Rightarrow> int \<Rightarrow> int option" where
  "naive_loop arr x low high =
     (case as_int (high - low) of
        None \<Rightarrow> None
      | Some d \<Rightarrow>
          if d > 1 then
            (case as_int (high + low) of
               None \<Rightarrow> None
             | Some s \<Rightarrow>
                 (let mid = s sdiv 2
                  in case vget arr mid of
                       None \<Rightarrow> None
                     | Some a \<Rightarrow>
                         if a < x then naive_loop arr x mid high else naive_loop arr x low mid))
          else Some high)"
  by pat_completeness auto
termination
  apply (relation "measure (\<lambda>(arr, x, low, high). nat (high - low))")
    apply (auto simp: as_int_def signed_divide_int_def sgn_if split: if_splits)
  done

definition naive_binary_search :: "int list \<Rightarrow> int \<Rightarrow> int option" where
  "naive_binary_search arr x =
     (if arr = [] then Some 0
      else do {
        a \<leftarrow> vget arr 0;
        if a \<ge> x then Some 0 else naive_loop arr x 0 (to_int (int (length arr)))
      })"

text \<open>
  \<open>std_lower_bound\<close> returns \<open>std::lower_bound(arr.begin(), arr.end(), x) - arr.begin()\<close>
  as an \<open>int\<close>. The library algorithm is not part of the repository; \<open>lower_bound_loop\<close>
  is the loop of the GNU implementation on a position \<open>first\<close> and a length \<open>len\<close>, both
  of the 64-bit difference type, within the bounds of the vector: it halves \<open>len\<close>,
  compares the element at \<open>first + half\<close> with the value and keeps the upper or the lower
  part.
\<close>

function lower_bound_loop :: "int list \<Rightarrow> int \<Rightarrow> int \<Rightarrow> int \<Rightarrow> int option" where
  "lower_bound_loop arr val first len =
     (if len > 0 then
        (let half = drop_bit 1 len; middle = first + half
         in case vget arr middle of
              None \<Rightarrow> None
            | Some a \<Rightarrow>
                if a < val then lower_bound_loop arr val (middle + 1) (len - half - 1)
                else lower_bound_loop arr val first half)
      else Some first)"
  by pat_completeness auto
termination
  apply (relation "measure (\<lambda>(arr, val, first, len). nat len)")
    apply (auto simp: drop_bit_eq_div)
  done

definition std_lower_bound :: "int list \<Rightarrow> int \<Rightarrow> int option" where
  "std_lower_bound arr x =
     do { r \<leftarrow> lower_bound_loop arr x 0 (int (length arr)); Some (to_int r) }"

subsection \<open>Notions of the specification\<close>

text \<open>
  The rank of a key: the number of elements strictly less than it. The in-order walk of
  the implicit tree on the indices \<open>1..N\<close>, the children of \<open>k\<close> being \<open>2k\<close> and
  \<open>2k + 1\<close>.
\<close>

definition rank :: "int list \<Rightarrow> int \<Rightarrow> nat" where
  "rank arr x = length (filter (\<lambda>a. a < x) arr)"

function inorder_walk :: "int \<Rightarrow> int \<Rightarrow> int list" where
  "inorder_walk N k =
     (if 0 < k \<and> k \<le> N then inorder_walk N (2 * k) @ [k] @ inorder_walk N (2 * k + 1) else [])"
  by pat_completeness auto
termination
  by (relation "measure (\<lambda>(N, k). nat (N + 1 - k))") auto

text \<open>
  The store index of the node that holds the lower bound of a key: the node at in-order
  position \<open>rank arr x\<close>, and 0 when every element is less than the key.
\<close>

definition eytzinger_index :: "int list \<Rightarrow> int \<Rightarrow> int" where
  "eytzinger_index arr x =
     (if rank arr x < length arr then inorder_walk (int (length arr)) 1 ! rank arr x else 0)"

text \<open>
  The subtree of \<open>k\<close> in the implicit tree: at depth \<open>d\<close> below \<open>k\<close> it holds the indices
  from \<open>k * 2 ^ d\<close> up to, and not including, \<open>(k + 1) * 2 ^ d\<close>.
\<close>

definition in_subtree :: "int \<Rightarrow> int \<Rightarrow> bool" where
  "in_subtree k j \<longleftrightarrow> (\<exists>d::nat. k * 2 ^ d \<le> j \<and> j < (k + 1) * 2 ^ d)"

text \<open>
  The value of \<open>k >> ffs(~k)\<close> on unbounded integers: \<open>k\<close> without its trailing one bits
  and the zero bit below them.
\<close>

definition strip_ones :: "int \<Rightarrow> int" where
  "strip_ones k = drop_bit (nat (builtin_ffs (NOT k))) k"

declare builtin_ffs.simps [simp del]
declare for_fixed.simps [simp del]
declare for_fixed_prefetch.simps [simp del]
declare naive_loop.simps [simp del]
declare lower_bound_loop.simps [simp del]
declare inorder_walk.simps [simp del]

section \<open>Index recovery\<close>

text \<open>
  Going left from \<open>k\<close> and recovering gives \<open>k\<close>; going right leaves the recovered
  index as it was.
\<close>

lemma builtin_ffs_nonneg: "0 \<le> builtin_ffs v"
  by (induction v rule: builtin_ffs.induct) (subst builtin_ffs.simps, simp)

lemma builtin_ffs_odd: "odd v \<Longrightarrow> builtin_ffs v = 1"
  by (subst builtin_ffs.simps) auto

lemma builtin_ffs_double: "v \<noteq> 0 \<Longrightarrow> builtin_ffs (2 * v) = 1 + builtin_ffs v"
  by (subst builtin_ffs.simps) simp

lemma strip_ones_left: "strip_ones (2 * k) = k"
proof -
  have "odd (NOT (2 * k))" by (simp add: not_int_def)
  then have "builtin_ffs (NOT (2 * k)) = 1" by (rule builtin_ffs_odd)
  then show ?thesis by (simp add: strip_ones_def drop_bit_eq_div)
qed

lemma strip_ones_right:
  assumes "k \<noteq> - 1"
  shows "strip_ones (2 * k + 1) = strip_ones k"
proof -
  have eq: "NOT (2 * k + 1) = 2 * NOT k" by (simp add: not_int_def)
  have nz: "NOT k \<noteq> 0" using assms by (simp add: not_int_def)
  have f: "builtin_ffs (NOT (2 * k + 1)) = 1 + builtin_ffs (NOT k)"
    unfolding eq using nz by (rule builtin_ffs_double)
  have "nat (1 + builtin_ffs (NOT k)) = Suc (nat (builtin_ffs (NOT k)))"
    using builtin_ffs_nonneg [of "NOT k"] by simp
  then have "drop_bit (nat (1 + builtin_ffs (NOT k))) (2 * k + 1)
      = drop_bit (nat (builtin_ffs (NOT k))) (drop_bit 1 (2 * k + 1))"
    by (simp add: drop_bit_Suc)
  also have "drop_bit 1 (2 * k + 1) = k" by (simp add: drop_bit_eq_div)
  finally show ?thesis by (simp add: strip_ones_def f)
qed

lemma strip_ones_1: "strip_ones 1 = 0"
  using strip_ones_right [of 0] strip_ones_left [of 0] by simp

text \<open>
  Within the range of its type the machine shift computes \<open>strip_ones\<close>: an \<open>int\<close> below
  \<open>INT_MAX\<close> has a zero bit among its low 31 bits, so the shift count is below 32; a \<open>long\<close>
  up to \<open>INT_MAX\<close> survives the conversion of \<open>~k\<close> to \<open>int\<close>.
\<close>

lemma builtin_ffs_NOT_bound:
  "0 \<le> k \<Longrightarrow> k < 2 ^ m - 1 \<Longrightarrow> 1 \<le> builtin_ffs (NOT k) \<and> builtin_ffs (NOT k) \<le> int m"
proof (induction m arbitrary: k)
  case 0
  then show ?case by simp
next
  case (Suc m)
  show ?case
  proof (cases "even k")
    case True
    then have "odd (NOT k)" by simp
    then have "builtin_ffs (NOT k) = 1" by (rule builtin_ffs_odd)
    then show ?thesis by simp
  next
    case False
    then obtain j where j: "k = 2 * j + 1" by (elim oddE)
    with Suc.prems have jb: "0 \<le> j" "j < 2 ^ m - 1" by auto
    have eq: "NOT (2 * j + 1) = 2 * NOT j" by (simp add: not_int_def)
    have nz: "NOT j \<noteq> 0" using jb(1) by (simp add: not_int_def)
    have "builtin_ffs (NOT k) = 1 + builtin_ffs (NOT j)"
      unfolding j eq using nz by (rule builtin_ffs_double)
    with Suc.IH [OF jb] show ?thesis by simp
  qed
qed

lemma strip_ones_range: "0 \<le> k \<Longrightarrow> 0 \<le> strip_ones k \<and> strip_ones k \<le> k"
proof (cases "k = 0")
  case True
  then show ?thesis by (simp add: strip_ones_def)
next
  case False
  assume "0 \<le> k"
  with False have "0 < k" by simp
  then have "k div 2 ^ nat (builtin_ffs (NOT k)) \<le> k" by (rule int_div_le_self)
  with \<open>0 \<le> k\<close> show ?thesis
    by (simp add: strip_ones_def drop_bit_eq_div pos_imp_zdiv_nonneg_iff)
qed

lemma to_int_id: "- (2 ^ 31) \<le> v \<Longrightarrow> v < 2 ^ 31 \<Longrightarrow> to_int v = v"
  by (simp add: to_int_def signed_take_bit_int_eq_self)

lemma restore_index_int_eq:
  assumes "0 \<le> k" "k < 2 ^ 31 - 1"
  shows "restore_index_int k = Some (strip_ones k)"
  using builtin_ffs_NOT_bound [OF assms(1), of 31] assms(2)
  by (simp add: restore_index_int_def strip_ones_def)

lemma restore_index_long_eq:
  assumes "0 \<le> k" "k < 2 ^ 31"
  shows "restore_index_long k = Some (strip_ones k)"
proof -
  have "to_int (NOT k) = NOT k"
    using assms by (intro to_int_id) (simp_all add: not_int_def)
  moreover have "1 \<le> builtin_ffs (NOT k) \<and> builtin_ffs (NOT k) \<le> int 32"
    using assms by (intro builtin_ffs_NOT_bound) auto
  ultimately show ?thesis by (simp add: restore_index_long_def strip_ones_def)
qed

lemma restore_index_long_result:
  assumes "0 \<le> k" "k < 2 ^ 31"
  shows "restore_index_long k \<bind> (\<lambda>r. Some (to_int r)) = Some (strip_ones k)"
proof -
  have "to_int (strip_ones k) = strip_ones k"
    using strip_ones_range [OF assms(1)] assms(2) by (intro to_int_id) auto
  then show ?thesis by (simp add: restore_index_long_eq [OF assms])
qed

section \<open>The in-order walk\<close>

text \<open>The walk from the root visits every index \<open>1..N\<close> exactly once.\<close>

lemma inorder_walk_unfold:
  "0 < k \<Longrightarrow> k \<le> N \<Longrightarrow>
     inorder_walk N k = inorder_walk N (2 * k) @ [k] @ inorder_walk N (2 * k + 1)"
  by (subst inorder_walk.simps) simp

lemma inorder_walk_empty: "\<not> (0 < k \<and> k \<le> N) \<Longrightarrow> inorder_walk N k = []"
  by (subst inorder_walk.simps) simp

lemma inorder_walk_self: "0 < k \<Longrightarrow> k \<le> N \<Longrightarrow> k \<in> set (inorder_walk N k)"
  by (simp add: inorder_walk_unfold)

lemma in_subtree_self: "in_subtree k k"
  unfolding in_subtree_def by (rule exI [of _ 0]) simp

lemma in_subtree_child:
  assumes "in_subtree c j" "c = 2 * k \<or> c = 2 * k + 1"
  shows "in_subtree k j"
proof -
  from assms(1) obtain d :: nat where d: "c * 2 ^ d \<le> j" "j < (c + 1) * 2 ^ d"
    unfolding in_subtree_def by blast
  have p: "(0::int) < 2 ^ d" by simp
  have "k * 2 ^ Suc d \<le> c * 2 ^ d"
    using assms(2) p by (auto simp: algebra_simps)
  moreover have "(c + 1) * 2 ^ d \<le> (k + 1) * 2 ^ Suc d"
    using assms(2) p by (auto simp: algebra_simps)
  ultimately have "k * 2 ^ Suc d \<le> j \<and> j < (k + 1) * 2 ^ Suc d"
    using d by linarith
  then show ?thesis unfolding in_subtree_def by blast
qed

lemma in_subtree_ge: "0 < k \<Longrightarrow> in_subtree k j \<Longrightarrow> k \<le> j"
proof -
  assume k: "0 < k" and "in_subtree k j"
  then obtain d :: nat where d: "k * 2 ^ d \<le> j" unfolding in_subtree_def by blast
  have "(1::int) \<le> 2 ^ d" by simp
  then have "k * 1 \<le> k * 2 ^ d" using k by (intro mult_left_mono) auto
  with d show "k \<le> j" by simp
qed

lemma inorder_walk_in_subtree:
  "j \<in> set (inorder_walk N k) \<Longrightarrow> 0 < k \<and> j \<le> N \<and> in_subtree k j"
proof (induction N k rule: inorder_walk.induct)
  case (1 N k)
  show ?case
  proof (cases "0 < k \<and> k \<le> N")
    case False
    with "1.prems" show ?thesis by (simp add: inorder_walk_empty)
  next
    case True
    with "1.prems" consider "j \<in> set (inorder_walk N (2 * k))" | "j = k"
      | "j \<in> set (inorder_walk N (2 * k + 1))"
      by (auto simp: inorder_walk_unfold)
    then show ?thesis
    proof cases
      case 1
      with "1.IH"(1) [OF True] have "j \<le> N" "in_subtree (2 * k) j" by auto
      with True show ?thesis using in_subtree_child [of "2 * k" j k] by simp
    next
      case 2
      with True show ?thesis by (simp add: in_subtree_self)
    next
      case 3
      with "1.IH"(2) [OF True] have "j \<le> N" "in_subtree (2 * k + 1) j" by auto
      with True show ?thesis using in_subtree_child [of "2 * k + 1" j k] by simp
    qed
  qed
qed

lemma inorder_walk_ge: "j \<in> set (inorder_walk N k) \<Longrightarrow> k \<le> j"
  using inorder_walk_in_subtree [of j N k] in_subtree_ge [of k j] by simp

lemma subtrees_disjoint:
  assumes k: "0 < k" and l: "in_subtree (2 * k) j" and r: "in_subtree (2 * k + 1) j"
  shows False
proof -
  from l obtain d :: nat where d: "2 * k * 2 ^ d \<le> j" "j < (2 * k + 1) * 2 ^ d"
    unfolding in_subtree_def by blast
  from r obtain e :: nat where e: "(2 * k + 1) * 2 ^ e \<le> j" "j < (2 * k + 1 + 1) * 2 ^ e"
    unfolding in_subtree_def by blast
  show False
  proof (cases "d \<le> e")
    case True
    then have "(2::int) ^ d \<le> 2 ^ e" by (simp add: power_increasing)
    then have "(2 * k + 1) * 2 ^ d \<le> (2 * k + 1) * 2 ^ e"
      using k by (intro mult_left_mono) auto
    with d e show False by linarith
  next
    case False
    then have "Suc e \<le> d" by simp
    then have "(2::int) ^ Suc e \<le> 2 ^ d" by (rule power_increasing) simp
    then have "2 * k * 2 ^ Suc e \<le> 2 * k * 2 ^ d"
      using k by (intro mult_left_mono) auto
    moreover have "(2 * k + 1 + 1) * 2 ^ e \<le> 2 * k * 2 ^ Suc e"
    proof -
      have "(0::int) < 2 ^ e" by simp
      moreover have "2 * k * 2 ^ Suc e - (2 * k + 1 + 1) * 2 ^ e = (2 * k - 2) * 2 ^ e"
        by (simp add: algebra_simps)
      moreover have "0 \<le> (2 * k - 2) * (2::int) ^ e" using k by (intro mult_nonneg_nonneg) auto
      ultimately show ?thesis by linarith
    qed
    ultimately show False using d e by linarith
  qed
qed

lemma inorder_walk_distinct: "distinct (inorder_walk N k)"
proof (induction N k rule: inorder_walk.induct)
  case (1 N k)
  show ?case
  proof (cases "0 < k \<and> k \<le> N")
    case False
    then show ?thesis by (simp add: inorder_walk_empty)
  next
    case True
    have a: "k \<notin> set (inorder_walk N (2 * k))"
      using inorder_walk_ge [of k N "2 * k"] True by auto
    have b: "k \<notin> set (inorder_walk N (2 * k + 1))"
      using inorder_walk_ge [of k N "2 * k + 1"] True by auto
    have c: "set (inorder_walk N (2 * k)) \<inter> set (inorder_walk N (2 * k + 1)) = {}"
      using inorder_walk_in_subtree subtrees_disjoint True by blast
    show ?thesis
      using True "1.IH" a b c by (simp add: inorder_walk_unfold)
  qed
qed

lemma inorder_walk_closed:
  "p \<in> set (inorder_walk N k) \<Longrightarrow> c \<le> N \<Longrightarrow> c = 2 * p \<or> c = 2 * p + 1 \<Longrightarrow>
     c \<in> set (inorder_walk N k)"
proof (induction N k rule: inorder_walk.induct)
  case (1 N k)
  show ?case
  proof (cases "0 < k \<and> k \<le> N")
    case False
    with "1.prems" show ?thesis by (simp add: inorder_walk_empty)
  next
    case True
    with "1.prems" consider "p \<in> set (inorder_walk N (2 * k))" | "p = k"
      | "p \<in> set (inorder_walk N (2 * k + 1))"
      by (auto simp: inorder_walk_unfold)
    then show ?thesis
    proof cases
      case 1
      then have "c \<in> set (inorder_walk N (2 * k))"
        using "1.IH"(1) [OF True] "1.prems" by simp
      with True show ?thesis by (simp add: inorder_walk_unfold)
    next
      case 2
      with "1.prems" True have "0 < c" "c \<le> N" by auto
      then have "c \<in> set (inorder_walk N c)" by (rule inorder_walk_self)
      with 2 "1.prems"(3) True show ?thesis by (auto simp: inorder_walk_unfold)
    next
      case 3
      then have "c \<in> set (inorder_walk N (2 * k + 1))"
        using "1.IH"(2) [OF True] "1.prems" by simp
      with True show ?thesis by (simp add: inorder_walk_unfold)
    qed
  qed
qed

lemma inorder_walk_complete: "0 < j \<Longrightarrow> j \<le> N \<Longrightarrow> j \<in> set (inorder_walk N 1)"
proof (induction "nat j" arbitrary: j rule: less_induct)
  case less
  show ?case
  proof (cases "j = 1")
    case True
    with less.prems show ?thesis by (simp add: inorder_walk_self)
  next
    case False
    with less.prems have "0 < j div 2" "j div 2 \<le> N" "nat (j div 2) < nat j" by auto
    then have "j div 2 \<in> set (inorder_walk N 1)" using less.hyps by blast
    moreover have "j = 2 * (j div 2) \<or> j = 2 * (j div 2) + 1" by presburger
    ultimately show ?thesis using less.prems(2) inorder_walk_closed by blast
  qed
qed

lemma set_inorder_walk: "set (inorder_walk N 1) = {1..N}"
proof
  show "set (inorder_walk N 1) \<subseteq> {1..N}"
    using inorder_walk_in_subtree [of _ N 1] inorder_walk_ge [of _ N 1] by auto
  show "{1..N} \<subseteq> set (inorder_walk N 1)"
    using inorder_walk_complete by auto
qed

lemma length_inorder_walk: "0 \<le> N \<Longrightarrow> int (length (inorder_walk N 1)) = N"
proof -
  assume "0 \<le> N"
  have "length (inorder_walk N 1) = card (set (inorder_walk N 1))"
    using inorder_walk_distinct by (simp add: distinct_card)
  also have "\<dots> = card {1..N}" by (simp add: set_inorder_walk)
  finally show ?thesis using \<open>0 \<le> N\<close> by simp
qed

section \<open>Ranks in a sorted sequence\<close>

lemma sorted_filter_takeWhile:
  "sorted arr \<Longrightarrow> filter (\<lambda>a. a < x) arr = takeWhile (\<lambda>a. a < (x::int)) arr"
proof (induction arr)
  case Nil
  then show ?case by simp
next
  case (Cons a arr)
  show ?case
  proof (cases "a < x")
    case True
    with Cons show ?thesis by simp
  next
    case False
    with Cons.prems have "\<forall>b\<in>set arr. \<not> b < x" by auto
    then have "filter (\<lambda>a. a < x) arr = []" by (simp add: filter_empty_conv)
    with False show ?thesis by simp
  qed
qed

lemma rank_le: "rank arr x \<le> length arr"
  by (simp add: rank_def)

lemma rank_full: "rank arr x = length arr \<longleftrightarrow> list_all (\<lambda>a. a < x) arr"
proof -
  have "length (filter (\<lambda>a. a < x) arr) = length arr \<longleftrightarrow> list_all (\<lambda>a. a < x) arr"
  proof (induction arr)
    case Nil
    show ?case by simp
  next
    case (Cons a arr)
    have "length (filter (\<lambda>a. a < x) arr) < Suc (length arr)"
      using length_filter_le [of "\<lambda>a. a < x" arr] by (simp only: less_Suc_eq_le)
    then have "length (filter (\<lambda>a. a < x) arr) \<noteq> Suc (length arr)" by (rule less_imp_neq)
    with Cons show ?case by auto
  qed
  then show ?thesis by (simp add: rank_def)
qed

lemma rank_below: "sorted arr \<Longrightarrow> i < rank arr x \<Longrightarrow> arr ! i < x"
proof -
  assume s: "sorted arr" and i: "i < rank arr x"
  let ?P = "\<lambda>a. a < x"
  from i have l: "i < length (takeWhile ?P arr)"
    using s by (simp add: rank_def sorted_filter_takeWhile)
  then have "takeWhile ?P arr ! i \<in> set (takeWhile ?P arr)" by simp
  then have "?P (takeWhile ?P arr ! i)" by (rule set_takeWhileD [THEN conjunct2])
  then show ?thesis using l by (simp add: takeWhile_nth)
qed

lemma rank_at: "sorted arr \<Longrightarrow> rank arr x < length arr \<Longrightarrow> x \<le> arr ! rank arr x"
  using nth_length_takeWhile [of "\<lambda>a. a < x" arr]
  by (simp add: rank_def sorted_filter_takeWhile)

lemma rank_split:
  assumes "arr = xs @ ys" "list_all (\<lambda>a. a < x) xs" "list_all (\<lambda>a. x \<le> a) ys"
  shows "rank arr x = length xs"
proof -
  have "filter (\<lambda>a. a < x) xs = xs" using assms(2) by (simp add: list_all_iff)
  moreover have "filter (\<lambda>a. a < x) ys = []"
    using assms(3) by (auto simp: list_all_iff filter_empty_conv)
  ultimately show ?thesis by (simp add: rank_def assms(1))
qed

lemma rank_eqI:
  assumes s: "sorted arr" and h: "h \<le> length arr"
    and lo: "0 < h \<Longrightarrow> arr ! (h - 1) < x"
    and hi: "h < length arr \<Longrightarrow> x \<le> arr ! h"
  shows "rank arr x = h"
proof -
  have "list_all (\<lambda>a. a < x) (take h arr)"
    unfolding list_all_iff
  proof
    fix a assume "a \<in> set (take h arr)"
    then obtain i where i: "i < length (take h arr)" "take h arr ! i = a"
      by (auto simp: in_set_conv_nth)
    then have ih: "i < h" "arr ! i = a" by auto
    then have "arr ! i \<le> arr ! (h - 1)"
      using s h by (intro sorted_nth_mono) auto
    with lo ih show "a < x" by auto
  qed
  moreover have "list_all (\<lambda>a. x \<le> a) (drop h arr)"
    unfolding list_all_iff
  proof
    fix a assume "a \<in> set (drop h arr)"
    then obtain i where i: "i < length (drop h arr)" "drop h arr ! i = a"
      by (auto simp: in_set_conv_nth)
    then have ih: "h + i < length arr" "arr ! (h + i) = a" using h by auto
    then have "arr ! h \<le> arr ! (h + i)"
      using s by (intro sorted_nth_mono) auto
    with hi ih show "x \<le> a" by auto
  qed
  ultimately have "rank arr x = length (take h arr)"
    by (intro rank_split) auto
  then show ?thesis using h by simp
qed

section \<open>The iteration count\<close>

text \<open>
  For an operand \<open>m\<close> with \<open>0 < m < 2 ^ 32\<close>, \<open>lg m\<close> is the position of the highest set
  bit: \<open>2 ^ lg m \<le> m < 2 ^ (lg m + 1)\<close>.
\<close>

lemma bit_top:
  assumes "0 \<le> v" "v < 2 ^ Suc w"
  shows "bit (v::int) w \<longleftrightarrow> 2 ^ w \<le> v"
proof -
  have "take_bit (Suc w) v = v" using assms by (rule take_bit_int_eq_self)
  then have v: "v = 2 ^ w * of_bool (bit v w) + take_bit w v"
    using take_bit_Suc_from_most [of w v] by simp
  have lo: "0 \<le> take_bit w v" and hi: "take_bit w v < 2 ^ w"
    by simp_all
  show ?thesis
  proof (cases "bit v w")
    case True
    with v have "v = 2 ^ w + take_bit w v" by simp
    with lo have "2 ^ w \<le> v" by linarith
    with True show ?thesis by simp
  next
    case False
    with v have "v = take_bit w v" by simp
    with hi have "\<not> 2 ^ w \<le> v" by linarith
    with False show ?thesis by simp
  qed
qed

lemma clz_from_bounds:
  "0 < v \<Longrightarrow> v < 2 ^ w \<Longrightarrow>
     clz_from w v < w \<and> 2 ^ (w - 1 - clz_from w v) \<le> v \<and> v < 2 ^ (w - clz_from w v)"
proof (induction w)
  case 0
  then show ?case by simp
next
  case (Suc w)
  have b: "bit v w \<longleftrightarrow> 2 ^ w \<le> v"
    using Suc.prems by (intro bit_top) auto
  show ?case
  proof (cases "bit v w")
    case True
    with b Suc.prems show ?thesis by simp
  next
    case False
    with b have "v < 2 ^ w" by simp
    from Suc.IH [OF Suc.prems(1) this] False show ?thesis by simp
  qed
qed

lemma lg_bounds:
  assumes "0 < m" "m < 2 ^ 32"
  shows "0 \<le> lg m \<and> 2 ^ nat (lg m) \<le> m \<and> m < 2 * 2 ^ nat (lg m)"
proof -
  define c where "c = clz_from 32 m"
  from clz_from_bounds [OF assms(1), of 32] assms(2)
  have c: "c < 32" "2 ^ (31 - c) \<le> m" "m < 2 ^ (32 - c)" by (simp_all add: c_def)
  have l: "lg m = int (31 - c)" using assms(1) c(1) by (simp add: lg_def builtin_clz_def c_def)
  have "32 - c = Suc (31 - c)" using c(1) by simp
  then have "m < 2 * 2 ^ (31 - c)" using c(3) by simp
  with c(2) l show ?thesis by simp
qed
section \<open>Construction\<close>

text \<open>
  The builder started at node \<open>k\<close> with cursor \<open>i\<close> consumes as many elements as the
  subtree of \<open>k\<close> has nodes, writes them to the nodes of the subtree in in-order and leaves
  every other cell of the vector alone.
\<close>

lemma take_drop_split:
  assumes "i + a < length xs"
  shows "take (a + Suc b) (drop i xs)
         = take a (drop i xs) @ [xs ! (i + a)] @ take b (drop (Suc (i + a)) xs)"
proof -
  have "take (a + Suc b) (drop i xs) = take a (drop i xs) @ take (Suc b) (drop a (drop i xs))"
    by (rule take_add)
  also have "drop a (drop i xs) = drop (i + a) xs" by (simp add: add.commute)
  also have "drop (i + a) xs = xs ! (i + a) # drop (Suc (i + a)) xs"
    using assms by (simp add: Cons_nth_drop_Suc)
  finally show ?thesis by simp
qed

lemma eytzinger_skip: "\<not> k \<le> N \<Longrightarrow> eytzinger N arr tv i k = Some (tv, i)"
  by (subst eytzinger.simps) simp

lemma as_int_Some: "- (2 ^ 31) \<le> v \<Longrightarrow> v < 2 ^ 31 \<Longrightarrow> as_int v = Some v"
  by (simp add: as_int_def)

lemma as_long_Some: "- (2 ^ 63) \<le> v \<Longrightarrow> v < 2 ^ 63 \<Longrightarrow> as_long v = Some v"
  by (simp add: as_long_def)

lemma eytzinger_node:
  assumes "k \<le> N"
    and "as_int (2 * k) = Some (2 * k)"
    and "eytzinger N arr tv i (2 * k) = Some (t1, i1)"
    and "vget arr i1 = Some a"
    and "vset t1 k a = Some t2"
    and "as_int (i1 + 1) = Some (i1 + 1)"
    and "as_int (2 * k + 1) = Some (2 * k + 1)"
  shows "eytzinger N arr tv i k = eytzinger N arr t2 (i1 + 1) (2 * k + 1)"
  by (subst eytzinger.simps) (simp add: assms)

lemma eytzinger_correct:
  "N < 2 ^ 30 \<Longrightarrow> int (length arr) < 2 ^ 31 \<Longrightarrow>
   0 < k \<Longrightarrow> 0 \<le> i \<Longrightarrow> int (length tv) = N + 1 \<Longrightarrow>
   i + int (length (inorder_walk N k)) \<le> int (length arr) \<Longrightarrow>
   \<exists>tv'. eytzinger N arr tv i k = Some (tv', i + int (length (inorder_walk N k)))
     \<and> length tv' = length tv
     \<and> (\<forall>m. int m \<notin> set (inorder_walk N k) \<longrightarrow> tv' ! m = tv ! m)
     \<and> map (\<lambda>j. tv' ! nat j) (inorder_walk N k)
         = take (length (inorder_walk N k)) (drop (nat i) arr)"
proof (induction N k arbitrary: tv i rule: inorder_walk.induct)
  case (1 N k)
  show ?case
  proof (cases "k \<le> N")
    case False
    then show ?thesis by (simp add: inorder_walk_empty eytzinger_skip)
  next
    case True
    with "1.prems"(3) have guard: "0 < k \<and> k \<le> N" by simp
    define L where "L = inorder_walk N (2 * k)"
    define R where "R = inorder_walk N (2 * k + 1)"
    have walk: "inorder_walk N k = L @ [k] @ R"
      using guard by (simp add: inorder_walk_unfold L_def R_def)
    have room: "i + int (length L) + 1 + int (length R) \<le> int (length arr)"
      using "1.prems"(6) by (simp add: walk)
    have "\<exists>t1. eytzinger N arr tv i (2 * k) = Some (t1, i + int (length L))
        \<and> length t1 = length tv
        \<and> (\<forall>m. int m \<notin> set L \<longrightarrow> t1 ! m = tv ! m)
        \<and> map (\<lambda>j. t1 ! nat j) L = take (length L) (drop (nat i) arr)"
      unfolding L_def
      using "1.IH"(1) [OF guard, of i tv] guard "1.prems"(1,2,4,5) room
      by (simp add: L_def)
    then obtain t1 where e1: "eytzinger N arr tv i (2 * k) = Some (t1, i + int (length L))"
      and len1: "length t1 = length tv"
      and frame1: "\<And>m. int m \<notin> set L \<Longrightarrow> t1 ! m = tv ! m"
      and map1: "map (\<lambda>j. t1 ! nat j) L = take (length L) (drop (nat i) arr)"
      by blast
    define i1 where "i1 = i + int (length L)"
    define a where "a = arr ! nat i1"
    define t2 where "t2 = t1[nat k := a]"
    have i1: "0 \<le> i1" "i1 < int (length arr)" "nat i1 = nat i + length L"
      using "1.prems"(4) room by (auto simp: i1_def nat_add_distrib)
    have rd: "vget arr i1 = Some a" using i1 by (simp add: vget_def a_def)
    have wr: "vset t1 k a = Some t2"
      using guard len1 "1.prems"(5) by (simp add: vset_def t2_def)
    have len2: "int (length t2) = N + 1" using len1 "1.prems"(5) by (simp add: t2_def)
    have "\<exists>t3. eytzinger N arr t2 (i1 + 1) (2 * k + 1) = Some (t3, i1 + 1 + int (length R))
        \<and> length t3 = length t2
        \<and> (\<forall>m. int m \<notin> set R \<longrightarrow> t3 ! m = t2 ! m)
        \<and> map (\<lambda>j. t3 ! nat j) R = take (length R) (drop (nat (i1 + 1)) arr)"
      unfolding R_def
      using "1.IH"(2) [OF guard, of "i1 + 1" t2] guard "1.prems"(1,2) i1(1) len2 room
      by (simp add: R_def i1_def)
    then obtain t3 where e3: "eytzinger N arr t2 (i1 + 1) (2 * k + 1)
          = Some (t3, i1 + 1 + int (length R))"
      and len3: "length t3 = length t2"
      and frame3: "\<And>m. int m \<notin> set R \<Longrightarrow> t3 ! m = t2 ! m"
      and map3: "map (\<lambda>j. t3 ! nat j) R = take (length R) (drop (nat (i1 + 1)) arr)"
      by blast
    have kL: "k \<notin> set L" using inorder_walk_ge [of k N "2 * k"] guard by (auto simp: L_def)
    have kR: "k \<notin> set R" using inorder_walk_ge [of k N "2 * k + 1"] guard by (auto simp: R_def)
    have LR: "\<And>j. j \<in> set L \<Longrightarrow> j \<notin> set R"
      using inorder_walk_in_subtree subtrees_disjoint guard unfolding L_def R_def by blast
    have Lpos: "\<And>j. j \<in> set L \<Longrightarrow> 0 < j"
      using inorder_walk_ge [of _ N "2 * k"] guard by (fastforce simp: L_def)
    have c1: "as_int (2 * k) = Some (2 * k)" and c2: "as_int (2 * k + 1) = Some (2 * k + 1)"
      using guard "1.prems"(1) by (simp_all add: as_int_Some)
    have c3: "as_int (i1 + 1) = Some (i1 + 1)"
      using i1(1,2) "1.prems"(2) by (simp add: as_int_Some)
    have res: "eytzinger N arr tv i k = Some (t3, i + int (length (inorder_walk N k)))"
      using eytzinger_node [OF True c1 e1 [folded i1_def] rd wr c3 c2] e3
      by (simp add: walk i1_def)
    have len: "length t3 = length tv" using len3 len1 by (simp add: t2_def)
    have frame: "\<forall>m. int m \<notin> set (inorder_walk N k) \<longrightarrow> t3 ! m = tv ! m"
    proof (intro allI impI)
      fix m assume m: "int m \<notin> set (inorder_walk N k)"
      then have "int m \<notin> set L" "int m \<noteq> k" "int m \<notin> set R" by (auto simp: walk)
      then have "nat k \<noteq> m" "t3 ! m = t2 ! m" "t1 ! m = tv ! m"
        using frame3 frame1 guard by auto
      then show "t3 ! m = tv ! m" by (simp add: t2_def)
    qed
    have left: "map (\<lambda>j. t3 ! nat j) L = map (\<lambda>j. t1 ! nat j) L"
    proof (rule map_cong [OF refl])
      fix j assume j: "j \<in> set L"
      then have jp: "0 < j" by (rule Lpos)
      have "j \<notin> set R" "j \<noteq> k" using j LR kL by auto
      with jp guard have "int (nat j) \<notin> set R" "nat j \<noteq> nat k" by auto
      then show "t3 ! nat j = t1 ! nat j" using frame3 [of "nat j"] by (simp add: t2_def)
    qed
    have mid: "t3 ! nat k = a"
    proof -
      have "int (nat k) \<notin> set R" using kR guard by simp
      then have "t3 ! nat k = t2 ! nat k" by (rule frame3)
      also have "\<dots> = a"
      proof -
        have "nat k < length t1" using guard len1 "1.prems"(5) by linarith
        then show ?thesis by (simp add: t2_def)
      qed
      finally show ?thesis .
    qed
    have "map (\<lambda>j. t3 ! nat j) (inorder_walk N k)
        = take (length L) (drop (nat i) arr) @ [arr ! (nat i + length L)]
          @ take (length R) (drop (Suc (nat i + length L)) arr)"
      using left map1 mid map3 i1
      by (simp add: walk a_def nat_add_distrib)
    also have "\<dots> = take (length L + Suc (length R)) (drop (nat i) arr)"
      using i1 by (subst take_drop_split) auto
    finally have mp: "map (\<lambda>j. t3 ! nat j) (inorder_walk N k)
        = take (length (inorder_walk N k)) (drop (nat i) arr)"
      by (simp add: walk)
    show ?thesis using res len frame mp by blast
  qed
qed

lemma new_Eytzinger_correct:
  assumes small: "int (length arr) < 2 ^ 30"
  shows "\<exists>tv. new_Eytzinger arr
       = Some \<lparr>t = tv, n = int (length arr), iters = lg (int (length arr) + 1)\<rparr>
     \<and> length tv = length arr + 1
     \<and> tv ! 0 = - 1
     \<and> map (\<lambda>j. tv ! nat j) (inorder_walk (int (length arr)) 1) = arr"
proof -
  define N where "N = int (length arr)"
  define t1 where "t1 = (replicate (nat (N + 1)) (0::int))[0 := - 1]"
  have N: "0 \<le> N" "N < 2 ^ 30" using small by (simp_all add: N_def)
  have conv: "to_int (int (length arr)) = N"
    unfolding N_def using small by (intro to_int_id) auto
  have n1: "as_int (N + 1) = Some (N + 1)" using N by (simp add: as_int_Some)
  have wl: "int (length (inorder_walk N 1)) = N" using N(1) by (rule length_inorder_walk)
  then have wl': "length (inorder_walk N 1) = length arr" by (simp add: N_def)
  have len1: "int (length t1) = N + 1" using N by (simp add: t1_def)
  have wr: "vset (replicate (nat (N + 1)) 0) 0 (- 1) = Some t1"
    using N by (simp add: vset_def t1_def)
  have "\<exists>tv'. eytzinger N arr t1 0 1 = Some (tv', 0 + int (length (inorder_walk N 1)))
     \<and> length tv' = length t1
     \<and> (\<forall>m. int m \<notin> set (inorder_walk N 1) \<longrightarrow> tv' ! m = t1 ! m)
     \<and> map (\<lambda>j. tv' ! nat j) (inorder_walk N 1)
         = take (length (inorder_walk N 1)) (drop (nat 0) arr)"
    by (rule eytzinger_correct) (use len1 wl N N_def in auto)
  then obtain tv where b: "eytzinger N arr t1 0 1 = Some (tv, N)"
    and len: "length tv = length t1"
    and frame: "\<And>m. int m \<notin> set (inorder_walk N 1) \<Longrightarrow> tv ! m = t1 ! m"
    and mp: "map (\<lambda>j. tv ! nat j) (inorder_walk N 1) = arr"
    using wl wl' by auto
  have "int 0 \<notin> set (inorder_walk N 1)" by (simp add: set_inorder_walk)
  then have "tv ! 0 = t1 ! 0" by (rule frame)
  then have z: "tv ! 0 = - 1" using N by (simp add: t1_def)
  have "new_Eytzinger arr = Some \<lparr>t = tv, n = N, iters = lg (N + 1)\<rparr>"
    using wr b n1 N(1) by (simp add: new_Eytzinger_def conv)
  moreover have "length tv = length arr + 1" using len len1 by (simp add: N_def)
  ultimately show ?thesis using z mp unfolding N_def by blast
qed

text \<open>
  From \<open>n \<ge> 2 ^ 30\<close> the builder descends along the left spine to \<open>k = 2 ^ 30\<close>, where
  \<open>2 * k\<close> overflows: no structure of that size is built.
\<close>

lemma eytzinger_overflow:
  "2 ^ 30 \<le> nv \<Longrightarrow> j \<le> 30 \<Longrightarrow> eytzinger nv arr tv i (2 ^ j) = None"
proof (induction "30 - j" arbitrary: j)
  case 0
  then have j: "j = 30" by simp
  have "as_int (2 * 2 ^ 30) = None" by (simp add: as_int_def)
  then show ?case using "0.prems"(1) unfolding j by (subst eytzinger.simps) simp
next
  case (Suc d)
  then have j: "j < 30" "d = 30 - Suc j" "Suc j \<le> 30" by simp_all
  define v where "v = (2::int) ^ j"
  have "(2::int) ^ Suc j \<le> 2 ^ 30" using j(3) by (intro power_increasing) auto
  then have v: "0 < v" "2 * v \<le> 2 ^ 30" by (simp_all add: v_def)
  then have "as_int (2 * v) = Some (2 * v)" by (simp add: as_int_def)
  then have c: "as_int (2 * 2 ^ j) = Some (2 ^ Suc j)" by (simp add: v_def)
  have le: "(2::int) ^ j \<le> nv"
  proof -
    have "(2::int) ^ j \<le> 2 ^ 30" using j(1) by (intro power_increasing) auto
    with Suc.prems(1) show ?thesis by linarith
  qed
  have "eytzinger nv arr tv i (2 ^ Suc j) = None"
    using Suc.hyps(1) [OF j(2) Suc.prems(1) j(3)] .
  then show ?case using le c by (subst eytzinger.simps) simp
qed

lemma new_Eytzinger_overflow:
  assumes "2 ^ 30 \<le> int (length arr)" "int (length arr) < 2 ^ 31"
  shows "new_Eytzinger arr = None"
proof -
  have conv: "to_int (int (length arr)) = int (length arr)"
    using assms by (intro to_int_id) auto
  have "eytzinger (int (length arr)) arr tv 0 1 = None" for tv
    using eytzinger_overflow [OF assms(1), of 0 arr tv 0] by simp
  then show ?thesis
    by (simp add: new_Eytzinger_def conv split: bind_splits if_splits)
qed

lemma built_small:
  "new_Eytzinger arr = Some e \<Longrightarrow> int (length arr) < 2 ^ 31 \<Longrightarrow> int (length arr) < 2 ^ 30"
  using new_Eytzinger_overflow [of arr] by fastforce

lemma built_shape:
  assumes "new_Eytzinger arr = Some e" "int (length arr) < 2 ^ 30"
  shows "n e = int (length arr)" "int (length (t e)) = n e + 1" "t e ! 0 = - 1"
    "iters e = lg (n e + 1)"
    "map (\<lambda>j. t e ! nat j) (inorder_walk (n e) 1) = arr"
  using new_Eytzinger_correct [OF assms(2)] assms(1) by auto
section \<open>The direct traversal\<close>

text \<open>
  The invariant of the loop \<open>while (k <= n)\<close>: the in-order walk is split in three parts,
  the nodes before the subtree of \<open>k\<close>, whose values are all less than the key, the
  subtree of \<open>k\<close>, and the nodes after it, whose values are all at least the key; the
  index recovered from \<open>k\<close> is the first node of the last part, or 0 when it is empty.
\<close>

lemma descend_int_Some:
  "0 \<le> k \<Longrightarrow> k < int (length tv) \<Longrightarrow> 2 * k + 1 < 2 ^ 31 \<Longrightarrow>
     descend_int tv x k = Some (2 * k + (if tv ! nat k < x then 1 else 0))"
  by (simp add: descend_int_def vget_def as_int_def)

lemma descend_long_Some:
  "0 \<le> k \<Longrightarrow> k < int (length tv) \<Longrightarrow> 2 * k + 1 < 2 ^ 63 \<Longrightarrow>
     descend_long tv x k = Some (2 * k + (if tv ! nat k < x then 1 else 0))"
  by (simp add: descend_long_def vget_def as_long_def)

lemma while_original_exit: "\<not> k \<le> n e \<Longrightarrow> while_original e x k = Some k"
  by (subst while_original.simps) simp

lemma while_original_step:
  "k \<le> n e \<Longrightarrow> descend_int (t e) x k = Some k' \<Longrightarrow>
     while_original e x k = while_original e x k'"
  by (subst while_original.simps) simp

lemma while_original_inv:
  assumes len: "int (length (t e)) = n e + 1"
    and small: "n e < 2 ^ 30"
    and srt: "sorted (map (\<lambda>j. t e ! nat j) (inorder_walk (n e) 1))"
  shows "0 < k \<Longrightarrow> k \<le> 2 * n e + 1 \<Longrightarrow>
    inorder_walk (n e) 1 = pre @ inorder_walk (n e) k @ post \<Longrightarrow>
    list_all (\<lambda>j. t e ! nat j < x) pre \<Longrightarrow>
    list_all (\<lambda>j. x \<le> t e ! nat j) post \<Longrightarrow>
    strip_ones k = (if post = [] then 0 else hd post) \<Longrightarrow>
    \<exists>k' pre' post'. while_original e x k = Some k'
      \<and> n e < k' \<and> k' \<le> 2 * n e + 1
      \<and> inorder_walk (n e) 1 = pre' @ post'
      \<and> list_all (\<lambda>j. t e ! nat j < x) pre'
      \<and> list_all (\<lambda>j. x \<le> t e ! nat j) post'
      \<and> strip_ones k' = (if post' = [] then 0 else hd post')"
proof (induction "nat (n e + 1 - k)" arbitrary: k pre post rule: less_induct)
  case less
  show ?case
  proof (cases "k \<le> n e")
    case False
    then have "inorder_walk (n e) k = []" by (simp add: inorder_walk_empty)
    with less.prems False show ?thesis
      by (auto simp: while_original_exit)
  next
    case True
    define L where "L = inorder_walk (n e) (2 * k)"
    define R where "R = inorder_walk (n e) (2 * k + 1)"
    define f where "f = (\<lambda>j. t e ! nat j)"
    have walk: "inorder_walk (n e) 1 = pre @ L @ [k] @ R @ post"
      using less.prems(1,3) True by (simp add: inorder_walk_unfold L_def R_def)
    have s: "sorted (map f (pre @ L @ [k] @ R @ post))"
      using srt by (simp add: walk f_def)
    have Lk: "\<forall>j\<in>set L. f j \<le> f k" and kR: "\<forall>j\<in>set R. f k \<le> f j"
      using s by (auto simp: sorted_append)
    have bounds: "0 \<le> k" "k < int (length (t e))" "2 * k + 1 < 2 ^ 31"
      using less.prems(1) True len small by auto
    show ?thesis
    proof (cases "f k < x")
      case right: True
      have st: "descend_int (t e) x k = Some (2 * k + 1)"
        using descend_int_Some [OF bounds, of x] right by (simp add: f_def)
      have "\<exists>k' pre' post'. while_original e x (2 * k + 1) = Some k'
        \<and> n e < k' \<and> k' \<le> 2 * n e + 1
        \<and> inorder_walk (n e) 1 = pre' @ post'
        \<and> list_all (\<lambda>j. t e ! nat j < x) pre'
        \<and> list_all (\<lambda>j. x \<le> t e ! nat j) post'
        \<and> strip_ones k' = (if post' = [] then 0 else hd post')"
      proof (rule less.hyps [where pre = "pre @ L @ [k]" and post = post])
        show "nat (n e + 1 - (2 * k + 1)) < nat (n e + 1 - k)"
          using less.prems(1) True by simp
        show "0 < 2 * k + 1" using less.prems(1) by simp
        show "2 * k + 1 \<le> 2 * n e + 1" using True by simp
        show "inorder_walk (n e) 1 = (pre @ L @ [k]) @ inorder_walk (n e) (2 * k + 1) @ post"
          by (simp add: walk R_def)
        show "list_all (\<lambda>j. t e ! nat j < x) (pre @ L @ [k])"
          using less.prems(4) Lk right by (fastforce simp: list_all_iff f_def)
        show "list_all (\<lambda>j. x \<le> t e ! nat j) post" by (rule less.prems(5))
        show "strip_ones (2 * k + 1) = (if post = [] then 0 else hd post)"
          using less.prems(1,6) by (simp add: strip_ones_right)
      qed
      then show ?thesis by (simp add: while_original_step [OF True st])
    next
      case left: False
      have st: "descend_int (t e) x k = Some (2 * k)"
        using descend_int_Some [OF bounds, of x] left by (simp add: f_def)
      have "\<exists>k' pre' post'. while_original e x (2 * k) = Some k'
        \<and> n e < k' \<and> k' \<le> 2 * n e + 1
        \<and> inorder_walk (n e) 1 = pre' @ post'
        \<and> list_all (\<lambda>j. t e ! nat j < x) pre'
        \<and> list_all (\<lambda>j. x \<le> t e ! nat j) post'
        \<and> strip_ones k' = (if post' = [] then 0 else hd post')"
      proof (rule less.hyps [where pre = pre and post = "[k] @ R @ post"])
        show "nat (n e + 1 - 2 * k) < nat (n e + 1 - k)"
          using less.prems(1) True by simp
        show "0 < 2 * k" using less.prems(1) by simp
        show "2 * k \<le> 2 * n e + 1" using True by simp
        show "inorder_walk (n e) 1 = pre @ inorder_walk (n e) (2 * k) @ [k] @ R @ post"
          by (simp add: walk L_def)
        show "list_all (\<lambda>j. t e ! nat j < x) pre" by (rule less.prems(4))
        show "list_all (\<lambda>j. x \<le> t e ! nat j) ([k] @ R @ post)"
          using less.prems(5) kR left by (fastforce simp: list_all_iff f_def)
        show "strip_ones (2 * k) = (if [k] @ R @ post = [] then 0 else hd ([k] @ R @ post))"
          by (simp add: strip_ones_left)
      qed
      then show ?thesis by (simp add: while_original_step [OF True st])
    qed
  qed
qed



lemma while_prefetch_exit: "\<not> k \<le> n e \<Longrightarrow> while_prefetch e x k = Some k"
  by (subst while_prefetch.simps) simp

lemma while_prefetch_step:
  "k \<le> n e \<Longrightarrow> as_long (k * 16) = Some a16 \<Longrightarrow> descend_long (t e) x k = Some k' \<Longrightarrow>
     while_prefetch e x k = while_prefetch e x k'"
  by (subst while_prefetch.simps) simp

lemma while_prefetch_eq:
  assumes len: "int (length (t e)) = n e + 1" and small: "n e < 2 ^ 30"
  shows "0 < k \<Longrightarrow> while_prefetch e x k = while_original e x k"
proof (induction "nat (n e + 1 - k)" arbitrary: k rule: less_induct)
  case less
  show ?case
  proof (cases "k \<le> n e")
    case False
    then show ?thesis by (simp add: while_original_exit while_prefetch_exit)
  next
    case True
    define k' where "k' = 2 * k + (if t e ! nat k < x then 1 else 0)"
    have st: "descend_int (t e) x k = Some k'"
      using descend_int_Some [of k "t e" x] less.prems True len small by (simp add: k'_def)
    have stl: "descend_long (t e) x k = Some k'"
      using descend_long_Some [of k "t e" x] less.prems True len small by (simp add: k'_def)
    have a: "as_long (k * 16) = Some (k * 16)"
      using less.prems True small by (intro as_long_Some) auto
    have "while_prefetch e x k' = while_original e x k'"
      by (rule less.hyps) (use less.prems True in \<open>auto simp: k'_def\<close>)
    then show ?thesis
      by (simp add: while_original_step [OF True st] while_prefetch_step [OF True a stl])
  qed
qed
section \<open>What the direct traversal returns\<close>

lemma while_original_result:
  assumes s: "sorted arr" and b: "new_Eytzinger arr = Some e"
    and small: "int (length arr) < 2 ^ 30"
  shows "\<exists>k'. while_original e x 1 = Some k' \<and> 0 \<le> k' \<and> k' \<le> 2 * n e + 1
     \<and> strip_ones k' = eytzinger_index arr x"
proof -
  define N where "N = int (length arr)"
  note sh = built_shape [OF b small]
  have e: "n e = N" using sh(1) by (simp add: N_def)
  have mp: "map (\<lambda>j. t e ! nat j) (inorder_walk N 1) = arr" using sh(5) e by simp
  have len: "int (length (t e)) = n e + 1" by (rule sh(2))
  have nsmall: "n e < 2 ^ 30" using e small by (simp add: N_def)
  have srt: "sorted (map (\<lambda>j. t e ! nat j) (inorder_walk (n e) 1))"
    using s mp e by simp
  have "\<exists>k' pre' post'. while_original e x 1 = Some k'
      \<and> n e < k' \<and> k' \<le> 2 * n e + 1
      \<and> inorder_walk (n e) 1 = pre' @ post'
      \<and> list_all (\<lambda>j. t e ! nat j < x) pre'
      \<and> list_all (\<lambda>j. x \<le> t e ! nat j) post'
      \<and> strip_ones k' = (if post' = [] then 0 else hd post')"
    by (rule while_original_inv [OF len nsmall srt, where pre = "[]" and post = "[]"])
      (use e N_def in \<open>auto simp: strip_ones_1\<close>)
  then obtain k' pre' post' where w: "while_original e x 1 = Some k'"
    and kb: "n e < k'" "k' \<le> 2 * n e + 1"
    and walk: "inorder_walk N 1 = pre' @ post'"
    and pre: "list_all (\<lambda>j. t e ! nat j < x) pre'"
    and post: "list_all (\<lambda>j. x \<le> t e ! nat j) post'"
    and r: "strip_ones k' = (if post' = [] then 0 else hd post')"
    using e by auto
  have arr: "arr = map (\<lambda>j. t e ! nat j) pre' @ map (\<lambda>j. t e ! nat j) post'"
    using mp walk by simp
  have rk: "rank arr x = length pre'"
    using rank_split [OF arr] pre post by (simp add: list_all_iff)
  have "strip_ones k' = eytzinger_index arr x"
  proof (cases "post' = []")
    case True
    then have "length pre' = length arr" using arr by simp
    with True r rk show ?thesis by (simp add: eytzinger_index_def)
  next
    case False
    then have "length pre' < length arr" using arr by (cases post') auto
    moreover have "(pre' @ post') ! length pre' = hd post'"
      using False by (cases post') simp_all
    then have "inorder_walk N 1 ! length pre' = hd post'"
      by (simp only: walk)
    ultimately show ?thesis using False r rk by (simp add: eytzinger_index_def N_def)
  qed
  moreover have "0 \<le> k'" using kb(1) e by (simp add: N_def)
  ultimately show ?thesis using w kb(2) by blast
qed

lemma original_correct:
  assumes s: "sorted arr" and b: "new_Eytzinger arr = Some e"
    and small: "int (length arr) < 2 ^ 30 - 1"
  shows "lower_bound_original e x = Some (eytzinger_index arr x)"
proof -
  have small': "int (length arr) < 2 ^ 30" using small by simp
  from while_original_result [OF s b small', of x]
  obtain k' where w: "while_original e x 1 = Some k'" and k: "0 \<le> k'" "k' \<le> 2 * n e + 1"
    and r: "strip_ones k' = eytzinger_index arr x" by blast
  have "k' < 2 ^ 31 - 1" using k(2) built_shape(1) [OF b small'] small by simp
  then have "restore_index_int k' = Some (strip_ones k')"
    using k(1) by (intro restore_index_int_eq)
  then show ?thesis using w r by (simp add: lower_bound_original_def)
qed

lemma prefetch_correct:
  assumes s: "sorted arr" and b: "new_Eytzinger arr = Some e"
    and small: "int (length arr) < 2 ^ 30"
  shows "lower_bound_prefetch e x = Some (eytzinger_index arr x)"
proof -
  note sh = built_shape [OF b small]
  from while_original_result [OF s b small, of x]
  obtain k' where w: "while_original e x 1 = Some k'" and k: "0 \<le> k'" "k' \<le> 2 * n e + 1"
    and r: "strip_ones k' = eytzinger_index arr x" by blast
  have wp: "while_prefetch e x 1 = Some k'"
    using while_prefetch_eq [OF sh(2), of 1 x] sh(1) small w by simp
  have "k' < 2 ^ 31" using k(2) sh(1) small by simp
  then have "restore_index_long k' \<bind> (\<lambda>r. Some (to_int r)) = Some (strip_ones k')"
    using k(1) by (intro restore_index_long_result)
  then show ?thesis using wp r by (simp add: lower_bound_prefetch_def)
qed

lemma eytzinger_index_range:
  "0 \<le> eytzinger_index arr x \<and> eytzinger_index arr x \<le> int (length arr)"
proof (cases "rank arr x < length arr")
  case True
  then have "rank arr x < length (inorder_walk (int (length arr)) 1)"
    using length_inorder_walk [of "int (length arr)"] by simp
  then have "inorder_walk (int (length arr)) 1 ! rank arr x \<in> set (inorder_walk (int (length arr)) 1)"
    by (rule nth_mem)
  then show ?thesis using True by (simp add: eytzinger_index_def set_inorder_walk)
next
  case False
  then show ?thesis by (simp add: eytzinger_index_def)
qed

lemma eytzinger_index_zero: "eytzinger_index arr x = 0 \<longleftrightarrow> rank arr x = length arr"
proof (cases "rank arr x < length arr")
  case True
  then have "rank arr x < length (inorder_walk (int (length arr)) 1)"
    using length_inorder_walk [of "int (length arr)"] by simp
  then have "inorder_walk (int (length arr)) 1 ! rank arr x \<in> set (inorder_walk (int (length arr)) 1)"
    by (rule nth_mem)
  then show ?thesis using True by (simp add: eytzinger_index_def set_inorder_walk)
next
  case False
  then show ?thesis using rank_le [of arr x] by (simp add: eytzinger_index_def)
qed

lemma eytzinger_index_value:
  assumes "new_Eytzinger arr = Some e" "int (length arr) < 2 ^ 30" "rank arr x < length arr"
  shows "t e ! nat (eytzinger_index arr x) = arr ! rank arr x"
proof -
  let ?w = "inorder_walk (int (length arr)) 1"
  from built_shape(1,5) [OF assms(1,2)]
  have mp: "map (\<lambda>j. t e ! nat j) ?w = arr" by simp
  have l: "rank arr x < length ?w"
    using length_inorder_walk [of "int (length arr)"] assms(3) by simp
  have "arr ! rank arr x = map (\<lambda>j. t e ! nat j) ?w ! rank arr x" by (simp add: mp)
  also have "\<dots> = t e ! nat (?w ! rank arr x)" using l by (rule nth_map)
  finally show ?thesis using assms(3) by (simp add: eytzinger_index_def)
qed
section \<open>The fixed-iteration traversal and the prefetching variants\<close>

text \<open>
  While \<open>i \<le> iters\<close> and \<open>2 ^ iters \<le> n + 1\<close>, the index \<open>k\<close> at the start of iteration
  \<open>i\<close> lies in \<open>[2 ^ i, 2 ^ (i + 1))\<close>, so every read of the loop is at an index in
  \<open>1..n\<close>, and the loop takes the same steps as the direct traversal.
\<close>

lemma for_fixed_exit: "\<not> i < iters e \<Longrightarrow> for_fixed e x i k = Some k"
  by (subst for_fixed.simps) simp

lemma for_fixed_step:
  "i < iters e \<Longrightarrow> descend_long (t e) x k = Some k' \<Longrightarrow>
     for_fixed e x i k = for_fixed e x (i + 1) k'"
  by (subst for_fixed.simps) simp

lemma for_fixed_prefetch_exit: "\<not> i < iters e \<Longrightarrow> for_fixed_prefetch e x i k = Some k"
  by (subst for_fixed_prefetch.simps) simp

lemma for_fixed_prefetch_step:
  "i < iters e \<Longrightarrow> as_long (k * 16) = Some a16 \<Longrightarrow> descend_int (t e) x k = Some k' \<Longrightarrow>
     for_fixed_prefetch e x i k = for_fixed_prefetch e x (i + 1) k'"
  by (subst for_fixed_prefetch.simps) simp

lemma for_fixed_run:
  assumes len: "int (length (t e)) = n e + 1"
    and small: "n e < 2 ^ 30"
    and its: "2 ^ nat (iters e) \<le> n e + 1"
  shows "0 \<le> i \<Longrightarrow> i \<le> iters e \<Longrightarrow> 2 ^ nat i \<le> k \<Longrightarrow> k < 2 * 2 ^ nat i \<Longrightarrow>
    \<exists>k'. for_fixed e x i k = Some k'
      \<and> 2 ^ nat (iters e) \<le> k' \<and> k' < 2 * 2 ^ nat (iters e)
      \<and> while_original e x k' = while_original e x k
      \<and> for_fixed_prefetch e x i k = Some k'"
proof (induction "nat (iters e - i)" arbitrary: i k rule: less_induct)
  case less
  show ?case
  proof (cases "i < iters e")
    case False
    with less.prems have "i = iters e" by simp
    with less.prems show ?thesis by (simp add: for_fixed_exit for_fixed_prefetch_exit)
  next
    case True
    have "(2::int) ^ nat (i + 1) \<le> 2 ^ nat (iters e)"
      using True less.prems(1) by (intro power_increasing) auto
    moreover have p: "(2::int) ^ nat (i + 1) = 2 * 2 ^ nat i"
      using less.prems(1) by (simp add: nat_add_distrib)
    ultimately have kn: "k \<le> n e" using less.prems(4) its by linarith
    have "(1::int) \<le> 2 ^ nat i" by simp
    with less.prems(3) have k0: "0 < k" by linarith
    define k' where "k' = 2 * k + (if t e ! nat k < x then 1 else 0)"
    have st: "descend_long (t e) x k = Some k'"
      using descend_long_Some [of k "t e" x] k0 kn len small by (simp add: k'_def)
    have sti: "descend_int (t e) x k = Some k'"
      using descend_int_Some [of k "t e" x] k0 kn len small by (simp add: k'_def)
    have a: "as_long (k * 16) = Some (k * 16)"
      using k0 kn small by (intro as_long_Some) auto
    have "\<exists>k''. for_fixed e x (i + 1) k' = Some k''
      \<and> 2 ^ nat (iters e) \<le> k'' \<and> k'' < 2 * 2 ^ nat (iters e)
      \<and> while_original e x k'' = while_original e x k'
      \<and> for_fixed_prefetch e x (i + 1) k' = Some k''"
    proof (rule less.hyps)
      show "nat (iters e - (i + 1)) < nat (iters e - i)" using True by simp
      show "0 \<le> i + 1" using less.prems(1) by simp
      show "i + 1 \<le> iters e" using True by simp
      show "2 ^ nat (i + 1) \<le> k'" using less.prems(3) by (simp add: p k'_def)
      show "k' < 2 * 2 ^ nat (i + 1)" using less.prems(4) by (simp add: p k'_def)
    qed
    then show ?thesis
      by (simp add: for_fixed_step [OF True st] while_original_step [OF kn sti]
          for_fixed_prefetch_step [OF True a sti])
  qed
qed

text \<open>
  The loop stopped after \<open>j \<le> iters\<close> iterations returns the index with which the
  whole loop enters iteration \<open>j\<close>.
\<close>

lemma for_fixed_prefix:
  "i \<le> j \<Longrightarrow> j \<le> iters e \<Longrightarrow> for_fixed (e\<lparr>iters := j\<rparr>) x i k = Some k' \<Longrightarrow>
     for_fixed e x i k = for_fixed e x j k'"
proof (induction "nat (j - i)" arbitrary: i k rule: less_induct)
  case less
  show ?case
  proof (cases "i < j")
    case False
    with less.prems(1) have "i = j" by simp
    with less.prems(3) show ?thesis by (simp add: for_fixed_exit)
  next
    case True
    then have ie: "i < iters e" and ij: "i < iters (e\<lparr>iters := j\<rparr>)"
      using less.prems(2) by simp_all
    show ?thesis
    proof (cases "descend_long (t e) x k")
      case None
      then have "for_fixed (e\<lparr>iters := j\<rparr>) x i k = None"
        using ij by (subst for_fixed.simps) simp
      with less.prems(3) show ?thesis by simp
    next
      case (Some k1)
      then have st: "descend_long (t (e\<lparr>iters := j\<rparr>)) x k = Some k1" by simp
      have "for_fixed (e\<lparr>iters := j\<rparr>) x (i + 1) k1 = Some k'"
        using less.prems(3) for_fixed_step [OF ij st] by simp
      then have "for_fixed e x (i + 1) k1 = for_fixed e x j k'"
        using True less.prems(2) by (intro less.hyps) auto
      then show ?thesis using for_fixed_step [OF ie Some] by simp
    qed
  qed
qed

text \<open>
  The final step and the recovery. With \<open>n + 1 < 2 ^ 29\<close> the index after the final step is
  below \<open>2 ^ 31 - 1\<close>, so the \<open>int\<close> and the \<open>long\<close> computation agree and both shifts
  are defined. When the final step reads index 0 and the value there is less than the key,
  it goes right from an index above \<open>n\<close>, which the recovery undoes.
\<close>

lemma fixed_iter_result:
  assumes len: "int (length (t e)) = n e + 1"
    and it0: "0 \<le> iters e"
    and its: "2 ^ nat (iters e) \<le> n e + 1" "n e + 1 < 2 * 2 ^ nat (iters e)"
    and small: "n e + 1 < 2 ^ 29"
  shows "\<exists>k'. lower_bound_fixed_iter e x = Some (strip_ones k')
     \<and> lower_bound_fixed_iter_prefetch e x = Some (strip_ones k')
     \<and> (t e ! 0 < x \<longrightarrow> (\<exists>kw. while_original e x 1 = Some kw \<and> strip_ones kw = strip_ones k'))"
proof -
  have small': "n e < 2 ^ 30" using small by simp
  from for_fixed_run [OF len small' its(1), of 0 1 x] it0
  obtain k where f: "for_fixed e x 0 1 = Some k"
    and k: "2 ^ nat (iters e) \<le> k" "k < 2 * 2 ^ nat (iters e)"
    and w: "while_original e x k = while_original e x 1"
    and fp: "for_fixed_prefetch e x 0 1 = Some k"
    by auto
  have one: "(1::int) \<le> 2 ^ nat (iters e)" by simp
  with k(1) have k0: "0 < k" by linarith
  have n0: "0 \<le> n e" using its(1) one by linarith
  have "2 * 2 ^ nat (iters e) \<le> 2 * (n e + 1)" using its(1) by simp
  with k(2) have kb: "k < 2 * (n e + 1)" by (rule less_le_trans)
  define a where "a = (if k \<le> n e then t e ! nat k else t e ! 0)"
  define k' where "k' = 2 * k + (if a < x then 1 else 0)"
  have rd: "(if k \<le> n e then vget (t e) k else vget (t e) 0) = Some a"
    using k0 n0 len by (simp add: vget_def a_def)
  have k'b: "0 \<le> k'" "k' < 2 ^ 31 - 1" using k0 kb small by (simp_all add: k'_def)
  have fs: "final_step e x k = Some k'"
    using rd k'b by (simp add: final_step_def k'_def as_long_def)
  have fsi: "final_step_int e x k = Some k'"
    using rd k'b by (simp add: final_step_int_def k'_def as_int_def)
  have rl: "restore_index_long k' \<bind> (\<lambda>r. Some (to_int r)) = Some (strip_ones k')"
    using k'b by (intro restore_index_long_result) auto
  have ri: "restore_index_int k' = Some (strip_ones k')"
    using k'b by (intro restore_index_int_eq)
  have 1: "lower_bound_fixed_iter e x = Some (strip_ones k')"
    using f fs rl by (simp add: lower_bound_fixed_iter_def)
  have 2: "lower_bound_fixed_iter_prefetch e x = Some (strip_ones k')"
    using fp fsi ri by (simp add: lower_bound_fixed_iter_prefetch_def)
  have 3: "\<exists>kw. while_original e x 1 = Some kw \<and> strip_ones kw = strip_ones k'"
    if sentinel: "t e ! 0 < x"
  proof (cases "k \<le> n e")
    case True
    have st: "descend_int (t e) x k = Some k'"
      using descend_int_Some [of k "t e" x] k0 True len small' by (simp add: k'_def a_def)
    have "\<not> k' \<le> n e" using k(1) its(2) by (simp add: k'_def)
    then have "while_original e x k' = Some k'" by (rule while_original_exit)
    then have "while_original e x 1 = Some k'"
      using w while_original_step [OF True st] by simp
    then show ?thesis by simp
  next
    case False
    then have "k' = 2 * k + 1" using sentinel by (simp add: k'_def a_def)
    moreover have "strip_ones (2 * k + 1) = strip_ones k"
      using k0 by (intro strip_ones_right) simp
    moreover have "while_original e x 1 = Some k"
      using w while_original_exit [OF False] by simp
    ultimately show ?thesis by simp
  qed
  from 1 2 3 show ?thesis by blast
qed

section \<open>The shape of a built structure\<close>

lemma built_iters:
  assumes "new_Eytzinger arr = Some e" "int (length arr) < 2 ^ 30"
  shows "0 \<le> iters e \<and> 2 ^ nat (iters e) \<le> n e + 1 \<and> n e + 1 < 2 * 2 ^ nat (iters e)"
proof -
  have "0 < n e + 1" "n e + 1 < 2 ^ 32"
    using built_shape(1) [OF assms] assms(2) by auto
  then show ?thesis unfolding built_shape(4) [OF assms] by (rule lg_bounds)
qed
section \<open>The reference searches\<close>

text \<open>
  Both loops keep the rank of the key inside their interval: every element before the
  interval is less than the key and the element after it, if any, is not.
\<close>

lemma vget_Some: "0 \<le> i \<Longrightarrow> i < int (length v) \<Longrightarrow> vget v i = Some (v ! nat i)"
  by (simp add: vget_def)

lemma naive_loop_exit:
  "- (2 ^ 31) \<le> high - low \<Longrightarrow> high - low \<le> 1 \<Longrightarrow> naive_loop arr x low high = Some high"
  by (subst naive_loop.simps) (simp add: as_int_def)

lemma naive_loop_step:
  assumes "1 < high - low" "high - low < 2 ^ 31" "0 \<le> high + low" "high + low < 2 ^ 31"
    and "vget arr ((high + low) div 2) = Some a"
  shows "naive_loop arr x low high
     = (if a < x then naive_loop arr x ((high + low) div 2) high
        else naive_loop arr x low ((high + low) div 2))"
proof -
  have "(high + low) sdiv 2 = (high + low) div 2"
    using assms(3) by (simp add: signed_divide_int_def sgn_if)
  then show ?thesis
    using assms by (subst naive_loop.simps) (simp add: as_int_def)
qed

lemma naive_loop_correct:
  "sorted arr \<Longrightarrow> int (length arr) \<le> 2 ^ 30 \<Longrightarrow>
   0 \<le> low \<Longrightarrow> low < high \<Longrightarrow> high \<le> int (length arr) \<Longrightarrow>
   arr ! nat low < x \<Longrightarrow> (high < int (length arr) \<longrightarrow> x \<le> arr ! nat high) \<Longrightarrow>
   naive_loop arr x low high = Some (int (rank arr x))"
proof (induction "nat (high - low)" arbitrary: low high rule: less_induct)
  case less
  show ?case
  proof (cases "high - low > 1")
    case False
    with less.prems have h: "high = low + 1" by simp
    have "rank arr x = nat high"
    proof (rule rank_eqI)
      show "sorted arr" by (rule less.prems(1))
      show "nat high \<le> length arr" using less.prems by simp
      show "arr ! (nat high - 1) < x" using less.prems h by (simp add: nat_add_distrib)
      show "x \<le> arr ! nat high" if "nat high < length arr"
        using that less.prems by simp
    qed
    then show ?thesis using False less.prems by (simp add: naive_loop_exit)
  next
    case True
    define mid where "mid = (high + low) div 2"
    have mb: "low < mid" "mid < high" using True by (auto simp: mid_def)
    have rd: "vget arr mid = Some (arr ! nat mid)"
      using mb less.prems by (intro vget_Some) auto
    have step: "naive_loop arr x low high
       = (if arr ! nat mid < x then naive_loop arr x mid high else naive_loop arr x low mid)"
      unfolding mid_def
      by (rule naive_loop_step) (use True less.prems rd in \<open>auto simp: mid_def\<close>)
    show ?thesis
    proof (cases "arr ! nat mid < x")
      case lt: True
      have "naive_loop arr x mid high = Some (int (rank arr x))"
        by (rule less.hyps) (use less.prems mb lt in auto)
      then show ?thesis using step lt by simp
    next
      case ge: False
      have "naive_loop arr x low mid = Some (int (rank arr x))"
        by (rule less.hyps) (use less.prems mb ge in auto)
      then show ?thesis using step ge by simp
    qed
  qed
qed

lemma naive_binary_search_correct:
  assumes "sorted arr" and small: "int (length arr) \<le> 2 ^ 30"
  shows "naive_binary_search arr x = Some (int (rank arr x))"
proof (cases "arr = []")
  case True
  then show ?thesis by (simp add: naive_binary_search_def rank_def)
next
  case False
  then have rd: "vget arr 0 = Some (arr ! 0)" by (simp add: vget_def)
  have conv: "to_int (int (length arr)) = int (length arr)"
    using small by (intro to_int_id) auto
  show ?thesis
  proof (cases "arr ! 0 \<ge> x")
    case True
    have "rank arr x = 0"
      by (rule rank_eqI [OF assms(1)]) (use True in simp_all)
    then show ?thesis using False rd True by (simp add: naive_binary_search_def)
  next
    case ge: False
    have "naive_loop arr x 0 (int (length arr)) = Some (int (rank arr x))"
      by (rule naive_loop_correct [OF assms]) (use False ge in auto)
    then show ?thesis using False rd ge by (simp add: naive_binary_search_def conv)
  qed
qed

lemma lower_bound_loop_correct:
  "sorted arr \<Longrightarrow> 0 \<le> first \<Longrightarrow> 0 \<le> len \<Longrightarrow> first + len \<le> int (length arr) \<Longrightarrow>
   (0 < first \<longrightarrow> arr ! nat (first - 1) < val) \<Longrightarrow>
   (first + len < int (length arr) \<longrightarrow> val \<le> arr ! nat (first + len)) \<Longrightarrow>
   lower_bound_loop arr val first len = Some (int (rank arr val))"
proof (induction arr val first len rule: lower_bound_loop.induct)
  case (1 arr val first len)
  show ?case
  proof (cases "len > 0")
    case False
    with "1.prems" have l: "len = 0" by simp
    have "rank arr val = nat first"
    proof (rule rank_eqI)
      show "sorted arr" by (rule "1.prems"(1))
      show "nat first \<le> length arr" using "1.prems" by simp
      show "arr ! (nat first - 1) < val" if "0 < nat first"
        using that "1.prems"(5) by (simp add: nat_diff_distrib)
      show "val \<le> arr ! nat first" if "nat first < length arr"
        using that "1.prems" l by simp
    qed
    then show ?thesis using False "1.prems" by (subst lower_bound_loop.simps) simp
  next
    case True
    define half where "half = drop_bit 1 len"
    define middle where "middle = first + half"
    have hf: "half = len div 2" by (simp add: half_def drop_bit_eq_div)
    have hb: "0 \<le> half" "half < len" using True hf by auto
    have rd: "vget arr middle = Some (arr ! nat middle)"
      using hb "1.prems" by (intro vget_Some) (auto simp: middle_def)
    show ?thesis
    proof (cases "arr ! nat middle < val")
      case lt: True
      have "lower_bound_loop arr val (middle + 1) (len - half - 1) = Some (int (rank arr val))"
        using "1.IH"(1) [OF True half_def middle_def rd lt] "1.prems" hb lt
        by (simp add: middle_def)
      then show ?thesis using True rd lt
        by (subst lower_bound_loop.simps) (simp add: middle_def half_def)
    next
      case ge: False
      have "lower_bound_loop arr val first half = Some (int (rank arr val))"
        using "1.IH"(2) [OF True half_def middle_def rd ge] "1.prems" hb ge
        by (simp add: middle_def)
      then show ?thesis using True rd ge
        by (subst lower_bound_loop.simps) (simp add: middle_def half_def)
    qed
  qed
qed

lemma std_lower_bound_correct:
  assumes "sorted arr" and small: "int (length arr) < 2 ^ 31"
  shows "std_lower_bound arr x = Some (int (rank arr x))"
proof -
  have "lower_bound_loop arr x 0 (int (length arr)) = Some (int (rank arr x))"
    by (rule lower_bound_loop_correct [OF assms(1)]) simp_all
  moreover have "to_int (int (rank arr x)) = int (rank arr x)"
    using rank_le [of arr x] small by (intro to_int_id) auto
  ultimately show ?thesis by (simp add: std_lower_bound_def)
qed

section \<open>Beyond the bounds\<close>

text \<open>
  The size bounds of the theorems below are those of the machine arithmetic. At
  \<open>k = INT_MAX\<close> the shift count of the recovery is 32: undefined on an \<open>int\<close>, while the
  \<open>long\<close> computation returns 0. At \<open>k = 2 ^ 32 - 1\<close> the \<open>int\<close> operand of
  \<open>__builtin_ffs\<close> is 0, nothing is shifted, and the result converts to \<open>-1\<close>. The sum
  \<open>high + low\<close> of \<open>naive_binary_search\<close> overflows at \<open>low = 2 ^ 30 - 1\<close>,
  \<open>high = 2 ^ 30 + 1\<close>. The constructor overflows from \<open>2 ^ 30\<close> elements
  (\<open>new_Eytzinger_overflow\<close>).
\<close>

lemma restore_index_int_max: "restore_index_int (2 ^ 31 - 1) = None"
  by code_simp

lemma restore_index_long_max:
  "restore_index_long (2 ^ 31 - 1) \<bind> (\<lambda>r. Some (to_int r)) = Some 0"
  by code_simp

lemma restore_index_long_truncated:
  "restore_index_long (2 ^ 32 - 1) \<bind> (\<lambda>r. Some (to_int r)) = Some (- 1)"
  by code_simp

lemma naive_loop_overflow: "naive_loop arr x (2 ^ 30 - 1) (2 ^ 30 + 1) = None"
  by (subst naive_loop.simps) (simp add: as_int_def)

section \<open>The claims\<close>

text \<open>
  C5. For every input of length \<open>N < 2 ^ 30\<close> (the sizes at which the \<open>int\<close> arithmetic of
  the builder is defined) the construction returns a structure whose store has length
  \<open>N + 1\<close>, and reading the store along the in-order walk of the implicit tree on the
  indices \<open>1..N\<close> (root 1, children \<open>2k\<close> and \<open>2k + 1\<close>) gives back the input sequence,
  element by element. Sortedness of the input is not needed.
\<close>

theorem inorder_invariant:
  assumes "int (length arr) < 2 ^ 30"
  shows "\<exists>e. new_Eytzinger arr = Some e
     \<and> length (t e) = length arr + 1
     \<and> map (\<lambda>k. t e ! nat k) (inorder_walk (int (length arr)) 1) = arr"
  using new_Eytzinger_correct [OF assms] by auto

theorem inorder_invariant_witness:
  "int (length [1, 3, 5 :: int]) < 2 ^ 30
   \<and> new_Eytzinger [1, 3, 5] = Some \<lparr>t = [- 1, 3, 1, 5], n = 3, iters = 2\<rparr>
   \<and> inorder_walk 3 1 = [2, 1, 3]
   \<and> map (\<lambda>k. [- 1, 3, 1, 5 :: int] ! nat k) [2, 1, 3] = [1, 3, 5]"
proof -
  have s: "int (length [1, 3, 5 :: int]) < 2 ^ 30" by simp
  have b: "new_Eytzinger [1, 3, 5] = Some \<lparr>t = [- 1, 3, 1, 5], n = 3, iters = 2\<rparr>"
    by code_simp
  have w: "inorder_walk 3 1 = [2, 1, 3]" by code_simp
  from inorder_invariant [OF s] b w
  have "map (\<lambda>k. [- 1, 3, 1, 5 :: int] ! nat k) [2, 1, 3] = [1, 3, 5]" by simp
  with s b w show ?thesis by simp
qed

text \<open>
  C9. \<open>get_value\<close> is total and checks its bound: on a built structure (store length
  \<open>N + 1\<close>) and for every \<open>int\<close> index \<open>i\<close> it returns the stored value when
  \<open>0 \<le> i \<le> N\<close> and \<open>-1\<close> otherwise, in particular when \<open>i\<close> is at or beyond the store
  length. (A negative index converts to a \<open>size_t\<close> beyond any store length.)
\<close>

theorem get_value_checked:
  assumes "new_Eytzinger arr = Some e"
    and "int (length arr) < 2 ^ 31"
    and "- (2 ^ 31) \<le> i" and "i < 2 ^ 31"
  shows "length (t e) = length arr + 1
     \<and> get_value e i = (if 0 \<le> i \<and> i < int (length (t e)) then t e ! nat i else - 1)"
proof -
  have small: "int (length arr) < 2 ^ 30" using assms(1,2) by (rule built_small)
  have len: "length (t e) = length arr + 1"
    using new_Eytzinger_correct [OF small] assms(1) by auto
  show ?thesis
  proof (cases "0 \<le> i")
    case True
    then have "size_t_of_int i = i" using assms(4) by (simp add: size_t_of_int_def)
    then show ?thesis using len True by (simp add: get_value_def)
  next
    case False
    have "i mod 2 ^ 64 = (i + 2 ^ 64) mod 2 ^ 64" by simp
    also have "\<dots> = i + 2 ^ 64"
      using False assms(3) by (intro mod_pos_pos_trivial) auto
    finally have "size_t_of_int i = i + 2 ^ 64" by (simp add: size_t_of_int_def)
    then have "\<not> size_t_of_int i < int (length (t e))"
      using len assms(2,3) by simp
    then show ?thesis using len False by (simp add: get_value_def)
  qed
qed

theorem get_value_checked_witness:
  "new_Eytzinger [1, 3, 5] = Some \<lparr>t = [- 1, 3, 1, 5], n = 3, iters = 2\<rparr>
   \<and> int (length [1, 3, 5 :: int]) < 2 ^ 31
   \<and> get_value \<lparr>t = [- 1, 3, 1, 5], n = 3, iters = 2\<rparr> 4 = - 1
   \<and> get_value \<lparr>t = [- 1, 3, 1, 5], n = 3, iters = 2\<rparr> 3 = 5
   \<and> get_value \<lparr>t = [- 1, 3, 1, 5], n = 3, iters = 2\<rparr> (- 2) = - 1"
proof -
  have b: "new_Eytzinger [1, 3, 5] = Some \<lparr>t = [- 1, 3, 1, 5], n = 3, iters = 2\<rparr>"
    by code_simp
  have s: "int (length [1, 3, 5 :: int]) < 2 ^ 31" by simp
  show ?thesis
    using b get_value_checked [OF b s, of 4] get_value_checked [OF b s, of 3]
      get_value_checked [OF b s, of "- 2"]
    by simp
qed

text \<open>
  C10. On a structure built from an ascending sequence of length \<open>N < 2 ^ 30 - 1\<close> (also for
  \<open>N = 0\<close>), \<open>lower_bound_original\<close> returns an \<open>r\<close> with \<open>0 \<le> r \<le> N\<close>; \<open>r = 0\<close> exactly
  when every element is less than the key; otherwise \<open>t[r]\<close> is the first element of the
  sorted sequence that is not less than the key (the element at position \<open>rank arr x\<close>,
  with every earlier element less than the key). The result is an index of the store, not a
  rank. The bound on \<open>N\<close> keeps the \<open>int k\<close> of the search below \<open>INT_MAX\<close>, where its
  shift is defined.
\<close>

theorem original_returns_store_index:
  assumes "sorted arr" and "new_Eytzinger arr = Some e" and "int (length arr) < 2 ^ 30 - 1"
  shows "\<exists>r. lower_bound_original e x = Some r
     \<and> 0 \<le> r \<and> r \<le> int (length arr)
     \<and> (r = 0 \<longleftrightarrow> (\<forall>a\<in>set arr. a < x))
     \<and> (r \<noteq> 0 \<longrightarrow> rank arr x < length arr
           \<and> t e ! nat r = arr ! rank arr x
           \<and> x \<le> arr ! rank arr x
           \<and> (\<forall>i<rank arr x. arr ! i < x))"
proof -
  let ?r = "eytzinger_index arr x"
  have small: "int (length arr) < 2 ^ 30" using assms(3) by simp
  have 1: "lower_bound_original e x = Some ?r" using assms by (rule original_correct)
  have 2: "0 \<le> ?r \<and> ?r \<le> int (length arr)" by (rule eytzinger_index_range)
  have 3: "?r = 0 \<longleftrightarrow> (\<forall>a\<in>set arr. a < x)"
    by (simp add: eytzinger_index_zero rank_full list_all_iff)
  have 4: "?r \<noteq> 0 \<longrightarrow> rank arr x < length arr
           \<and> t e ! nat ?r = arr ! rank arr x
           \<and> x \<le> arr ! rank arr x
           \<and> (\<forall>i<rank arr x. arr ! i < x)"
  proof
    assume "?r \<noteq> 0"
    then have lt: "rank arr x < length arr"
      using rank_le [of arr x] by (simp add: eytzinger_index_zero)
    show "rank arr x < length arr
           \<and> t e ! nat ?r = arr ! rank arr x
           \<and> x \<le> arr ! rank arr x
           \<and> (\<forall>i<rank arr x. arr ! i < x)"
      using lt eytzinger_index_value [OF assms(2) small lt] rank_at [OF assms(1) lt]
        rank_below [OF assms(1)]
      by simp
  qed
  from 1 2 3 4 show ?thesis by blast
qed

theorem original_returns_store_index_witness:
  "sorted [1, 3, 5 :: int]
   \<and> new_Eytzinger [1, 3, 5] = Some \<lparr>t = [- 1, 3, 1, 5], n = 3, iters = 2\<rparr>
   \<and> int (length [1, 3, 5 :: int]) < 2 ^ 30 - 1
   \<and> lower_bound_original \<lparr>t = [- 1, 3, 1, 5], n = 3, iters = 2\<rparr> 1 = Some 2
   \<and> rank [1, 3, 5] 1 = 0
   \<and> [- 1, 3, 1, 5 :: int] ! nat 2 = [1, 3, 5] ! 0"
proof -
  have s: "sorted [1, 3, 5 :: int]" by simp
  have b: "new_Eytzinger [1, 3, 5] = Some \<lparr>t = [- 1, 3, 1, 5], n = 3, iters = 2\<rparr>"
    by code_simp
  have l: "int (length [1, 3, 5 :: int]) < 2 ^ 30 - 1" by simp
  have q: "lower_bound_original \<lparr>t = [- 1, 3, 1, 5], n = 3, iters = 2\<rparr> 1 = Some 2"
    by code_simp
  have r: "rank [1, 3, 5] 1 = 0" by (simp add: rank_def)
  from original_returns_store_index [OF s b l, of 1] q r
  have "[- 1, 3, 1, 5 :: int] ! nat 2 = [1, 3, 5] ! 0" by simp
  with s b l q r show ?thesis by simp
qed



text \<open>
  C6. On a structure built from \<open>N\<close> elements (\<open>N + 1\<close> a valid \<open>int\<close>), \<open>iters\<close> is the
  integer logarithm of \<open>N + 1\<close>: \<open>2 ^ iters \<le> N + 1 < 2 ^ (iters + 1)\<close>. For every key, the
  index \<open>k\<close> read at iteration \<open>j\<close> of the loop of \<open>lower_bound_fixed_iter\<close> (the
  result of the loop stopped after \<open>j\<close> iterations, from which the whole loop continues
  at iteration \<open>j\<close>) satisfies \<open>1 \<le> k \<le> N\<close> for every \<open>j < iters\<close>, and after all
  \<open>iters\<close> iterations \<open>k \<le> 2 * N + 1\<close>. The loop returns, so every read it makes is
  within the store.
\<close>

theorem fixed_iteration_safety:
  assumes "new_Eytzinger arr = Some e" and "int (length arr) < 2 ^ 31 - 1"
  shows "0 \<le> iters e
     \<and> 2 ^ nat (iters e) \<le> int (length arr) + 1
     \<and> int (length arr) + 1 < 2 * 2 ^ nat (iters e)
     \<and> (\<forall>j. 0 \<le> j \<and> j < iters e \<longrightarrow>
           (\<exists>k. for_fixed (e\<lparr>iters := j\<rparr>) x 0 1 = Some k
                \<and> for_fixed e x 0 1 = for_fixed e x j k
                \<and> 1 \<le> k \<and> k \<le> int (length arr)))
     \<and> (\<exists>k. for_fixed e x 0 1 = Some k \<and> k \<le> 2 * int (length arr) + 1)"
proof -
  have small: "int (length arr) < 2 ^ 30"
    using assms(1) by (rule built_small) (use assms(2) in simp)
  note sh = built_shape [OF assms(1) small]
  have ns: "n e < 2 ^ 30" using sh(1) small by simp
  from built_iters [OF assms(1) small] have it: "0 \<le> iters e" "2 ^ nat (iters e) \<le> n e + 1"
    "n e + 1 < 2 * 2 ^ nat (iters e)" by auto
  have part: "\<exists>k. for_fixed (e\<lparr>iters := j\<rparr>) x 0 1 = Some k
      \<and> for_fixed e x 0 1 = for_fixed e x j k
      \<and> 1 \<le> k \<and> k \<le> int (length arr)"
    if j: "0 \<le> j" "j < iters e" for j
  proof -
    let ?e = "e\<lparr>iters := j\<rparr>"
    have "(2::int) ^ nat (j + 1) \<le> 2 ^ nat (iters e)"
      using j by (intro power_increasing) auto
    then have le: "(2::int) * 2 ^ nat j \<le> 2 ^ nat (iters e)"
      using j(1) by (simp add: nat_add_distrib)
    have "\<exists>k'. for_fixed ?e x 0 1 = Some k'
      \<and> 2 ^ nat (iters ?e) \<le> k' \<and> k' < 2 * 2 ^ nat (iters ?e)
      \<and> while_original ?e x k' = while_original ?e x 1
      \<and> for_fixed_prefetch ?e x 0 1 = Some k'"
    proof (rule for_fixed_run)
      show "int (length (t ?e)) = n ?e + 1" using sh(2) by simp
      show "n ?e < 2 ^ 30" using ns by simp
      have "(0::int) \<le> 2 ^ nat j" by simp
      with le it(2) have "2 ^ nat j \<le> n e + 1" by linarith
      then show "2 ^ nat (iters ?e) \<le> n ?e + 1" by simp
      show "0 \<le> iters ?e" using j(1) by simp
    qed simp_all
    then obtain k where k: "for_fixed ?e x 0 1 = Some k" "2 ^ nat j \<le> k" "k < 2 * 2 ^ nat j"
      by auto
    have "(1::int) \<le> 2 ^ nat j" by simp
    with k le it(2) sh(1) have "1 \<le> k \<and> k \<le> int (length arr)" by linarith
    moreover have "for_fixed e x 0 1 = for_fixed e x j k"
      using j k(1) by (intro for_fixed_prefix) auto
    ultimately show ?thesis using k(1) by blast
  qed
  have "\<exists>k'. for_fixed e x 0 1 = Some k'
      \<and> 2 ^ nat (iters e) \<le> k' \<and> k' < 2 * 2 ^ nat (iters e)
      \<and> while_original e x k' = while_original e x 1
      \<and> for_fixed_prefetch e x 0 1 = Some k'"
    by (rule for_fixed_run [OF sh(2) ns it(2)]) (use it(1) in simp_all)
  then obtain k where k: "for_fixed e x 0 1 = Some k" "k < 2 * 2 ^ nat (iters e)" by auto
  with it(2) sh(1) have "k \<le> 2 * int (length arr) + 1" by linarith
  with k(1) have whole: "\<exists>k. for_fixed e x 0 1 = Some k \<and> k \<le> 2 * int (length arr) + 1"
    by blast
  from it sh(1) part whole show ?thesis by auto
qed

theorem fixed_iteration_safety_witness:
  "new_Eytzinger [1, 3, 5, 7, 9, 11]
     = Some \<lparr>t = [- 1, 7, 3, 11, 1, 5, 9], n = 6, iters = 2\<rparr>
   \<and> int (length [1, 3, 5, 7, 9, 11 :: int]) < 2 ^ 31 - 1
   \<and> (0::int) \<le> 1 \<and> 1 < iters \<lparr>t = [- 1, 7, 3, 11, 1, 5, 9], n = 6, iters = 2\<rparr>
   \<and> (\<exists>k. for_fixed (\<lparr>t = [- 1, 7, 3, 11, 1, 5, 9], n = 6, iters = 2\<rparr>\<lparr>iters := 1\<rparr>) 6 0 1
            = Some k
          \<and> for_fixed \<lparr>t = [- 1, 7, 3, 11, 1, 5, 9], n = 6, iters = 2\<rparr> 6 0 1
            = for_fixed \<lparr>t = [- 1, 7, 3, 11, 1, 5, 9], n = 6, iters = 2\<rparr> 6 1 k
          \<and> 1 \<le> k \<and> k \<le> 6)
   \<and> (\<exists>k. for_fixed \<lparr>t = [- 1, 7, 3, 11, 1, 5, 9], n = 6, iters = 2\<rparr> 6 0 1 = Some k
            \<and> k \<le> 13)"
proof -
  have b: "new_Eytzinger [1, 3, 5, 7, 9, 11]
     = Some \<lparr>t = [- 1, 7, 3, 11, 1, 5, 9], n = 6, iters = 2\<rparr>"
    by code_simp
  have s: "int (length [1, 3, 5, 7, 9, 11 :: int]) < 2 ^ 31 - 1" by simp
  from fixed_iteration_safety [OF b s, of 6] have
    "(\<forall>j. 0 \<le> j \<and> j < 2 \<longrightarrow>
       (\<exists>k. for_fixed (\<lparr>t = [- 1, 7, 3, 11, 1, 5, 9], n = 6, iters = 2\<rparr>\<lparr>iters := j\<rparr>) 6 0 1
            = Some k
          \<and> for_fixed \<lparr>t = [- 1, 7, 3, 11, 1, 5, 9], n = 6, iters = 2\<rparr> 6 0 1
            = for_fixed \<lparr>t = [- 1, 7, 3, 11, 1, 5, 9], n = 6, iters = 2\<rparr> 6 j k
          \<and> 1 \<le> k \<and> k \<le> 6))"
    and w: "(\<exists>k. for_fixed \<lparr>t = [- 1, 7, 3, 11, 1, 5, 9], n = 6, iters = 2\<rparr> 6 0 1 = Some k
            \<and> k \<le> 13)"
    by simp_all
  then have "\<exists>k. for_fixed (\<lparr>t = [- 1, 7, 3, 11, 1, 5, 9], n = 6, iters = 2\<rparr>\<lparr>iters := 1\<rparr>) 6 0 1
            = Some k
          \<and> for_fixed \<lparr>t = [- 1, 7, 3, 11, 1, 5, 9], n = 6, iters = 2\<rparr> 6 0 1
            = for_fixed \<lparr>t = [- 1, 7, 3, 11, 1, 5, 9], n = 6, iters = 2\<rparr> 6 1 k
          \<and> 1 \<le> k \<and> k \<le> 6"
    by (elim allE [of _ 1]) simp
  with b s w show ?thesis by simp
qed

text \<open>
  C8. For every ascending sequence of length \<open>N \<le> 2 ^ 30\<close> (the sizes at which the sum
  \<open>high + low\<close> of \<open>naive_binary_search\<close> stays an \<open>int\<close>) and every key,
  \<open>naive_binary_search\<close> and \<open>std_lower_bound\<close> both return the number of elements
  strictly less than the key, which is the position of the first element not less than the
  key, or \<open>N\<close> when there is none; hence they agree.
\<close>

theorem reference_searches:
  assumes "sorted arr" and "int (length arr) \<le> 2 ^ 30"
  shows "naive_binary_search arr x = Some (int (rank arr x))
     \<and> std_lower_bound arr x = Some (int (rank arr x))
     \<and> rank arr x \<le> length arr
     \<and> (\<forall>i<rank arr x. arr ! i < x)
     \<and> (rank arr x < length arr \<longrightarrow> x \<le> arr ! rank arr x)"
proof -
  have "int (length arr) < 2 ^ 31" using assms(2) by simp
  then show ?thesis
    using naive_binary_search_correct [OF assms] std_lower_bound_correct [OF assms(1)]
      rank_le [of arr x] rank_below [OF assms(1)] rank_at [OF assms(1)]
    by simp
qed

theorem reference_searches_witness:
  "sorted [1, 3, 5, 7, 9, 11 :: int]
   \<and> int (length [1, 3, 5, 7, 9, 11 :: int]) \<le> 2 ^ 30
   \<and> naive_binary_search [1, 3, 5, 7, 9, 11] 6 = Some 3
   \<and> std_lower_bound [1, 3, 5, 7, 9, 11] 6 = Some 3
   \<and> rank [1, 3, 5, 7, 9, 11] 6 = 3
   \<and> (6::int) \<le> [1, 3, 5, 7, 9, 11] ! 3"
proof -
  have s: "sorted [1, 3, 5, 7, 9, 11 :: int]" by simp
  have l: "int (length [1, 3, 5, 7, 9, 11 :: int]) \<le> 2 ^ 30" by simp
  have r: "rank [1, 3, 5, 7, 9, 11] 6 = 3" by (simp add: rank_def)
  from reference_searches [OF s l, of 6] s l r show ?thesis by simp
qed

text \<open>
  C1, as stated, fails: on the ascending sequence \<open>[1, 3, 5]\<close> and the key 1 the rank is 0
  and both reference searches return 0, but \<open>lower_bound_original\<close> returns 2, the store
  index of the element 1.
\<close>

theorem all_variants_counterexample:
  "sorted [1, 3, 5 :: int]
   \<and> new_Eytzinger [1, 3, 5] = Some \<lparr>t = [- 1, 3, 1, 5], n = 3, iters = 2\<rparr>
   \<and> lower_bound_original \<lparr>t = [- 1, 3, 1, 5], n = 3, iters = 2\<rparr> 1 = Some 2
   \<and> naive_binary_search [1, 3, 5] 1 = Some 0
   \<and> std_lower_bound [1, 3, 5] 1 = Some 0
   \<and> rank [1, 3, 5] 1 = 0"
proof -
  have "new_Eytzinger [1, 3, 5] = Some \<lparr>t = [- 1, 3, 1, 5], n = 3, iters = 2\<rparr>"
    by code_simp
  moreover have "lower_bound_original \<lparr>t = [- 1, 3, 1, 5], n = 3, iters = 2\<rparr> 1 = Some 2"
    by code_simp
  moreover have "naive_binary_search [1, 3, 5] 1 = Some 0" by code_simp
  moreover have "std_lower_bound [1, 3, 5] 1 = Some 0" by code_simp
  moreover have "rank [1, 3, 5] 1 = 0" by (simp add: rank_def)
  ultimately show ?thesis by simp
qed

text \<open>
  C1, amended. For every ascending sequence of length \<open>N < 2 ^ 29 - 1\<close> (the sizes at which
  none of the six functions overflows an \<open>int\<close> or shifts one by 32) and every key \<open>x\<close>:
  \<open>naive_binary_search\<close> and \<open>std_lower_bound\<close> return the rank of \<open>x\<close>, a value in
  \<open>[0, N]\<close>; \<open>lower_bound_original\<close> and \<open>lower_bound_prefetch\<close> return the store index of
  the element of that rank (the node at that position of the in-order walk), a value in
  \<open>[1, N]\<close> at which the store holds that element, or 0 when the rank is \<open>N\<close>; and for
  every key above the sentinel, \<open>-1 < x\<close>, \<open>lower_bound_fixed_iter\<close> and
  \<open>lower_bound_fixed_iter_prefetch\<close> return that same store index.
\<close>

theorem all_variants_agree:
  assumes "sorted arr" and "new_Eytzinger arr = Some e" and "int (length arr) < 2 ^ 29 - 1"
  shows "naive_binary_search arr x = Some (int (rank arr x))
     \<and> std_lower_bound arr x = Some (int (rank arr x))
     \<and> rank arr x \<le> length arr
     \<and> lower_bound_original e x = Some (eytzinger_index arr x)
     \<and> lower_bound_prefetch e x = Some (eytzinger_index arr x)
     \<and> (- 1 < x \<longrightarrow>
           lower_bound_fixed_iter e x = Some (eytzinger_index arr x)
         \<and> lower_bound_fixed_iter_prefetch e x = Some (eytzinger_index arr x))
     \<and> 0 \<le> eytzinger_index arr x \<and> eytzinger_index arr x \<le> int (length arr)
     \<and> (eytzinger_index arr x = 0 \<longleftrightarrow> rank arr x = length arr)
     \<and> (rank arr x < length arr \<longrightarrow> t e ! nat (eytzinger_index arr x) = arr ! rank arr x)"
proof -
  have s30: "int (length arr) < 2 ^ 30" and s30': "int (length arr) < 2 ^ 30 - 1"
    and le30: "int (length arr) \<le> 2 ^ 30" and s31: "int (length arr) < 2 ^ 31"
    using assms(3) by simp_all
  note sh = built_shape [OF assms(2) s30]
  from built_iters [OF assms(2) s30] have it: "0 \<le> iters e" "2 ^ nat (iters e) \<le> n e + 1"
    "n e + 1 < 2 * 2 ^ nat (iters e)" by auto
  have orig: "lower_bound_original e x = Some (eytzinger_index arr x)"
    using assms(1,2) s30' by (rule original_correct)
  have pre: "lower_bound_prefetch e x = Some (eytzinger_index arr x)"
    using assms(1,2) s30 by (rule prefetch_correct)
  have fixed: "lower_bound_fixed_iter e x = Some (eytzinger_index arr x)
      \<and> lower_bound_fixed_iter_prefetch e x = Some (eytzinger_index arr x)" if "- 1 < x"
  proof -
    have sentinel: "t e ! 0 < x" using sh(3) that by simp
    have "n e + 1 < 2 ^ 29" using sh(1) assms(3) by simp
    from fixed_iter_result [OF sh(2) it this, of x] sentinel
    obtain k' kw where f: "lower_bound_fixed_iter e x = Some (strip_ones k')"
      "lower_bound_fixed_iter_prefetch e x = Some (strip_ones k')"
      and w: "while_original e x 1 = Some kw" "strip_ones kw = strip_ones k'"
      by blast
    from while_original_result [OF assms(1,2) s30, of x] w
    have "strip_ones k' = eytzinger_index arr x" by auto
    with f show ?thesis by simp
  qed
  show ?thesis
    using naive_binary_search_correct [OF assms(1) le30]
      std_lower_bound_correct [OF assms(1) s31]
      rank_le [of arr x] orig pre fixed eytzinger_index_range [of arr x]
      eytzinger_index_zero [of arr x] eytzinger_index_value [OF assms(2) s30]
    by simp
qed

theorem all_variants_agree_witness:
  "sorted [1, 3, 5, 7, 9, 11 :: int]
   \<and> new_Eytzinger [1, 3, 5, 7, 9, 11]
       = Some \<lparr>t = [- 1, 7, 3, 11, 1, 5, 9], n = 6, iters = 2\<rparr>
   \<and> int (length [1, 3, 5, 7, 9, 11 :: int]) < 2 ^ 29 - 1
   \<and> (- 1 :: int) < 6
   \<and> rank [1, 3, 5, 7, 9, 11] 6 = 3
   \<and> eytzinger_index [1, 3, 5, 7, 9, 11] 6 = 1
   \<and> naive_binary_search [1, 3, 5, 7, 9, 11] 6 = Some 3
   \<and> std_lower_bound [1, 3, 5, 7, 9, 11] 6 = Some 3
   \<and> lower_bound_original \<lparr>t = [- 1, 7, 3, 11, 1, 5, 9], n = 6, iters = 2\<rparr> 6 = Some 1
   \<and> lower_bound_prefetch \<lparr>t = [- 1, 7, 3, 11, 1, 5, 9], n = 6, iters = 2\<rparr> 6 = Some 1
   \<and> lower_bound_fixed_iter \<lparr>t = [- 1, 7, 3, 11, 1, 5, 9], n = 6, iters = 2\<rparr> 6 = Some 1
   \<and> lower_bound_fixed_iter_prefetch \<lparr>t = [- 1, 7, 3, 11, 1, 5, 9], n = 6, iters = 2\<rparr> 6
       = Some 1
   \<and> [- 1, 7, 3, 11, 1, 5, 9 :: int] ! nat 1 = [1, 3, 5, 7, 9, 11] ! 3"
proof -
  have s: "sorted [1, 3, 5, 7, 9, 11 :: int]" by simp
  have b: "new_Eytzinger [1, 3, 5, 7, 9, 11]
       = Some \<lparr>t = [- 1, 7, 3, 11, 1, 5, 9], n = 6, iters = 2\<rparr>"
    by code_simp
  have l: "int (length [1, 3, 5, 7, 9, 11 :: int]) < 2 ^ 29 - 1" by simp
  have r: "rank [1, 3, 5, 7, 9, 11] 6 = 3" by (simp add: rank_def)
  have i: "eytzinger_index [1, 3, 5, 7, 9, 11] 6 = 1" by code_simp
  from all_variants_agree [OF s b l, of 6] s b l r i show ?thesis by simp
qed

text \<open>
  C2, as stated, fails: on the structure built from \<open>[1, 3, 5, 7, 9, 11]\<close> the key 5 has
  rank 2, which \<open>naive_binary_search\<close> returns, but \<open>lower_bound_original\<close> returns 5.
\<close>

theorem scenario_counterexample:
  "new_Eytzinger [1, 3, 5, 7, 9, 11]
       = Some \<lparr>t = [- 1, 7, 3, 11, 1, 5, 9], n = 6, iters = 2\<rparr>
   \<and> lower_bound_original \<lparr>t = [- 1, 7, 3, 11, 1, 5, 9], n = 6, iters = 2\<rparr> 5 = Some 5
   \<and> naive_binary_search [1, 3, 5, 7, 9, 11] 5 = Some 2"
proof -
  have "new_Eytzinger [1, 3, 5, 7, 9, 11]
       = Some \<lparr>t = [- 1, 7, 3, 11, 1, 5, 9], n = 6, iters = 2\<rparr>"
    by code_simp
  moreover have
    "lower_bound_original \<lparr>t = [- 1, 7, 3, 11, 1, 5, 9], n = 6, iters = 2\<rparr> 5 = Some 5"
    by code_simp
  moreover have "naive_binary_search [1, 3, 5, 7, 9, 11] 5 = Some 2" by code_simp
  ultimately show ?thesis by simp
qed

text \<open>
  C2, amended. For the structure built from \<open>[1, 3, 5, 7, 9, 11]\<close> and the keys 5, 6, 0, 12
  and 1: \<open>naive_binary_search\<close> and \<open>std_lower_bound\<close> return the ranks 2, 3, 0, 6 and 0;
  the four searches of the structure agree with each other and return the store indices
  5, 1, 4, 0 and 4, where 0 stands for no such element and the store holds at the indices
  5, 1 and 4 the elements of rank 2, 3 and 0.
\<close>

theorem scenario:
  "new_Eytzinger [1, 3, 5, 7, 9, 11]
       = Some \<lparr>t = [- 1, 7, 3, 11, 1, 5, 9], n = 6, iters = 2\<rparr>
   \<and> map (naive_binary_search [1, 3, 5, 7, 9, 11]) [5, 6, 0, 12, 1]
       = [Some 2, Some 3, Some 0, Some 6, Some 0]
   \<and> map (std_lower_bound [1, 3, 5, 7, 9, 11]) [5, 6, 0, 12, 1]
       = [Some 2, Some 3, Some 0, Some 6, Some 0]
   \<and> map (lower_bound_original \<lparr>t = [- 1, 7, 3, 11, 1, 5, 9], n = 6, iters = 2\<rparr>)
         [5, 6, 0, 12, 1]
       = [Some 5, Some 1, Some 4, Some 0, Some 4]
   \<and> map (lower_bound_fixed_iter \<lparr>t = [- 1, 7, 3, 11, 1, 5, 9], n = 6, iters = 2\<rparr>)
         [5, 6, 0, 12, 1]
       = [Some 5, Some 1, Some 4, Some 0, Some 4]
   \<and> map (lower_bound_prefetch \<lparr>t = [- 1, 7, 3, 11, 1, 5, 9], n = 6, iters = 2\<rparr>)
         [5, 6, 0, 12, 1]
       = [Some 5, Some 1, Some 4, Some 0, Some 4]
   \<and> map (lower_bound_fixed_iter_prefetch \<lparr>t = [- 1, 7, 3, 11, 1, 5, 9], n = 6, iters = 2\<rparr>)
         [5, 6, 0, 12, 1]
       = [Some 5, Some 1, Some 4, Some 0, Some 4]
   \<and> map (get_value \<lparr>t = [- 1, 7, 3, 11, 1, 5, 9], n = 6, iters = 2\<rparr>) [5, 1, 4]
       = map ((!) [1, 3, 5, 7, 9, 11]) [2, 3, 0]"
proof -
  let ?e = "\<lparr>t = [- 1, 7, 3, 11, 1, 5, 9], n = 6, iters = 2\<rparr>"
  have 1: "new_Eytzinger [1, 3, 5, 7, 9, 11] = Some ?e" by code_simp
  have 2: "map (naive_binary_search [1, 3, 5, 7, 9, 11]) [5, 6, 0, 12, 1]
       = [Some 2, Some 3, Some 0, Some 6, Some 0]" by code_simp
  have 3: "map (std_lower_bound [1, 3, 5, 7, 9, 11]) [5, 6, 0, 12, 1]
       = [Some 2, Some 3, Some 0, Some 6, Some 0]" by code_simp
  have 4: "map (lower_bound_original ?e) [5, 6, 0, 12, 1]
       = [Some 5, Some 1, Some 4, Some 0, Some 4]" by code_simp
  have 5: "map (lower_bound_fixed_iter ?e) [5, 6, 0, 12, 1]
       = [Some 5, Some 1, Some 4, Some 0, Some 4]" by code_simp
  have 6: "map (lower_bound_prefetch ?e) [5, 6, 0, 12, 1]
       = [Some 5, Some 1, Some 4, Some 0, Some 4]" by code_simp
  have 7: "map (lower_bound_fixed_iter_prefetch ?e) [5, 6, 0, 12, 1]
       = [Some 5, Some 1, Some 4, Some 0, Some 4]" by code_simp
  have 8: "map (get_value ?e) [5, 1, 4] = map ((!) [1, 3, 5, 7, 9, 11]) [2, 3, 0]"
    by code_simp
  from 1 2 3 4 5 6 7 8 show ?thesis by (intro conjI)
qed

text \<open>
  C3 says that index 0 of the store holds a value less than every key, so that the final
  step of the fixed-iteration searches goes right whenever it reads it. The constructor
  stores \<open>-1\<close>. On the structure built from the empty sequence, the final step reads index
  0 from \<open>k = 1\<close>: with the key \<open>-1\<close> the comparison fails and the step goes left, to 2;
  with the key 0 it goes right, to 3. The sentinel is not below negative elements either: on
  the structure built from \<open>[-10, -9, -8, -7, -6, -5]\<close> and the key \<open>-1\<close>, which is above
  every element, \<open>lower_bound_original\<close> returns 0 and \<open>lower_bound_fixed_iter\<close> returns 7,
  an index outside the store.
\<close>

theorem sentinel_not_below_key:
  "new_Eytzinger [] = Some \<lparr>t = [- 1], n = 0, iters = 0\<rparr>
   \<and> t \<lparr>t = [- 1], n = 0, iters = 0\<rparr> ! 0 = - 1
   \<and> \<not> t \<lparr>t = [- 1], n = 0, iters = 0\<rparr> ! 0 < - 1
   \<and> final_step \<lparr>t = [- 1], n = 0, iters = 0\<rparr> (- 1) 1 = Some 2
   \<and> final_step \<lparr>t = [- 1], n = 0, iters = 0\<rparr> 0 1 = Some 3
   \<and> new_Eytzinger [- 10, - 9, - 8, - 7, - 6, - 5]
       = Some \<lparr>t = [- 1, - 7, - 9, - 5, - 10, - 8, - 6], n = 6, iters = 2\<rparr>
   \<and> lower_bound_original \<lparr>t = [- 1, - 7, - 9, - 5, - 10, - 8, - 6], n = 6, iters = 2\<rparr> (- 1)
       = Some 0
   \<and> lower_bound_fixed_iter \<lparr>t = [- 1, - 7, - 9, - 5, - 10, - 8, - 6], n = 6, iters = 2\<rparr> (- 1)
       = Some 7"
proof -
  have 1: "new_Eytzinger [] = Some \<lparr>t = [- 1], n = 0, iters = 0\<rparr>" by code_simp
  have 2: "final_step \<lparr>t = [- 1], n = 0, iters = 0\<rparr> (- 1) 1 = Some 2" by code_simp
  have 3: "final_step \<lparr>t = [- 1], n = 0, iters = 0\<rparr> 0 1 = Some 3" by code_simp
  have 4: "new_Eytzinger [- 10, - 9, - 8, - 7, - 6, - 5]
       = Some \<lparr>t = [- 1, - 7, - 9, - 5, - 10, - 8, - 6], n = 6, iters = 2\<rparr>"
    by code_simp
  have 5: "lower_bound_original
      \<lparr>t = [- 1, - 7, - 9, - 5, - 10, - 8, - 6], n = 6, iters = 2\<rparr> (- 1) = Some 0"
    by code_simp
  have 6: "lower_bound_fixed_iter
      \<lparr>t = [- 1, - 7, - 9, - 5, - 10, - 8, - 6], n = 6, iters = 2\<rparr> (- 1) = Some 7"
    by code_simp
  from 1 2 3 4 5 6 show ?thesis by simp
qed

text \<open>
  C4 says that every search on the structure built from the empty sequence returns 0 for
  every key. With the key \<open>-1\<close> the two fixed-iteration searches return 1; the other
  searches return 0.
\<close>

theorem empty_structure_negative_key:
  "new_Eytzinger [] = Some \<lparr>t = [- 1], n = 0, iters = 0\<rparr>
   \<and> lower_bound_fixed_iter \<lparr>t = [- 1], n = 0, iters = 0\<rparr> (- 1) = Some 1
   \<and> lower_bound_fixed_iter_prefetch \<lparr>t = [- 1], n = 0, iters = 0\<rparr> (- 1) = Some 1
   \<and> lower_bound_original \<lparr>t = [- 1], n = 0, iters = 0\<rparr> (- 1) = Some 0
   \<and> lower_bound_prefetch \<lparr>t = [- 1], n = 0, iters = 0\<rparr> (- 1) = Some 0
   \<and> naive_binary_search [] (- 1) = Some 0
   \<and> std_lower_bound [] (- 1) = Some 0"
proof -
  let ?e = "\<lparr>t = [- 1], n = 0, iters = 0\<rparr>"
  have 1: "new_Eytzinger [] = Some ?e" by code_simp
  have 2: "lower_bound_fixed_iter ?e (- 1) = Some 1" by code_simp
  have 3: "lower_bound_fixed_iter_prefetch ?e (- 1) = Some 1" by code_simp
  have 4: "lower_bound_original ?e (- 1) = Some 0" by code_simp
  have 5: "lower_bound_prefetch ?e (- 1) = Some 0" by code_simp
  have 6: "naive_binary_search [] (- 1) = Some 0" by code_simp
  have 7: "std_lower_bound [] (- 1) = Some 0" by code_simp
  from 1 2 3 4 5 6 7 show ?thesis by (intro conjI)
qed

end
